theory Spec2Isabelle
  imports Complex_Main
begin

section \<open>Hybrid retrieval engine of \<open>scripts/rag.py\<close>\<close>

text \<open>
  The development embeds the pure-Python path of \<open>scripts/rag.py\<close>: the frequency
  embedder \<open>SimpleEmbedder\<close>, the vector store with its brute-force search
  (\<open>_use_faiss = False\<close>; the FAISS branch calls an external library), and
  \<open>HybridSearchEngine\<close>.

  Modelling conventions.
  \<^item> Python floats are modelled as real numbers: \<open>math.log\<close> is \<open>ln\<close>, \<open>math.sqrt\<close> is
    \<open>sqrt\<close>, and the rounding error of IEEE doubles is not modelled.
  \<^item> Texts are ASCII strings.
  \<^item> An insertion-ordered \<open>dict\<close> or \<open>Counter\<close> whose order is observable is an
    association list with distinct keys, in insertion order.
  \<^item> A raised exception is the \<open>Inl\<close> branch of a sum; a method that mutates its object
    returns the new object next to its result.
\<close>

subsection \<open>Exceptions\<close>

text \<open>
  The first four constructors are the built-in exceptions the modelled statements can
  raise (\<open>ValueError\<close> is what \<open>max\<close> raises on an empty sequence). The last three are the error names of the specification's taxonomy; the source
  defines no such exception class and no \<open>raise\<close> statement, so no function below
  ever returns them.
\<close>

datatype error =
    AttributeError | IndexError | ZeroDivisionError | ValueError
  | IndexNotBuilt | EmptyCorpus | DimensionMismatch

fun fold_err :: "('a \<Rightarrow> 's \<Rightarrow> error + 's) \<Rightarrow> 'a list \<Rightarrow> 's \<Rightarrow> error + 's" where
  "fold_err f [] s = Inr s"
| "fold_err f (x # xs) s = (case f x s of Inl e \<Rightarrow> Inl e | Inr s' \<Rightarrow> fold_err f xs s')"

fun map_err :: "('a \<Rightarrow> error + 'b) \<Rightarrow> 'a list \<Rightarrow> error + 'b list" where
  "map_err f [] = Inr []"
| "map_err f (x # xs) =
     (case f x of Inl e \<Rightarrow> Inl e
      | Inr y \<Rightarrow> (case map_err f xs of Inl e \<Rightarrow> Inl e | Inr ys \<Rightarrow> Inr (y # ys)))"

subsection \<open>Python primitives\<close>

text \<open>\<open>xs[i]\<close> for a non-negative index.\<close>

definition py_index :: "'a list \<Rightarrow> nat \<Rightarrow> error + 'a" where
  "py_index xs i = (if i < length xs then Inr (xs ! i) else Inl IndexError)"

text \<open>\<open>xs[i] = v\<close> for a non-negative index.\<close>

definition py_setitem :: "'a list \<Rightarrow> nat \<Rightarrow> 'a \<Rightarrow> error + 'a list" where
  "py_setitem xs i v = (if i < length xs then Inr (xs[i := v]) else Inl IndexError)"

text \<open>\<open>xs[:k]\<close>: a negative bound counts from the end.\<close>

definition py_slice_to :: "'a list \<Rightarrow> int \<Rightarrow> 'a list" where
  "py_slice_to xs k =
     (if 0 \<le> k then take (nat k) xs else take (length xs - nat (- k)) xs)"

text \<open>\<open>a / b\<close> on floats.\<close>

definition py_truediv :: "real \<Rightarrow> real \<Rightarrow> error + real" where
  "py_truediv a b = (if b = 0 then Inl ZeroDivisionError else Inr (a / b))"

text \<open>
  \<open>round(x, 4)\<close>: the nearest multiple of \<open>10\<^sup>-\<^sup>4\<close>, a tie going to the even
  multiple.
\<close>

definition round_half_even :: "real \<Rightarrow> int" where
  "round_half_even y =
     (let f = \<lfloor>y\<rfloor>; d = y - of_int f
      in if d < 1 / 2 then f
         else if 1 / 2 < d then f + 1
         else if even f then f else f + 1)"

definition round4 :: "real \<Rightarrow> real" where
  "round4 x = of_int (round_half_even (x * 10000)) / 10000"

text \<open>
  \<open>c[k] += v\<close> on a \<open>Counter\<close> (a missing key counts as zero and is appended), and
  \<open>Counter(xs)\<close>.
\<close>

fun counter_add :: "'k \<Rightarrow> 'v \<Rightarrow> ('k \<times> 'v::plus) list \<Rightarrow> ('k \<times> 'v) list" where
  "counter_add k v [] = [(k, v)]"
| "counter_add k v ((k', v') # c) =
     (if k = k' then (k', v' + v) # c else (k', v') # counter_add k v c)"

definition Counter :: "'k list \<Rightarrow> ('k \<times> nat) list" where
  "Counter xs = fold (\<lambda>x c. counter_add x 1 c) xs []"

text \<open>
  Iterating over \<open>set(tokens)\<close> visits every distinct token once, in hash order. The
  model fixes one such order. The order only decides which vocabulary index a token
  gets and in which order the keys of the inverted index are created.
\<close>

definition set_iter :: "'a list \<Rightarrow> 'a list" where
  "set_iter xs = remdups xs"

subsection \<open>Tokenizer\<close>

text \<open>\<open>re.findall(r"\w+", text.lower())\<close> on ASCII text.\<close>

definition lower_char :: "char \<Rightarrow> char" where
  "lower_char c =
     (let n = (of_char c :: nat)
      in if 65 \<le> n \<and> n \<le> 90 then char_of (n + 32) else c)"

definition is_word_char :: "char \<Rightarrow> bool" where
  "is_word_char c =
     (let n = (of_char c :: nat)
      in (48 \<le> n \<and> n \<le> 57) \<or> (65 \<le> n \<and> n \<le> 90) \<or> n = 95 \<or> (97 \<le> n \<and> n \<le> 122))"

fun findall_word :: "string \<Rightarrow> string \<Rightarrow> string list" where
  "findall_word cur [] = (if cur = [] then [] else [cur])"
| "findall_word cur (c # cs) =
     (if is_word_char c then findall_word (cur @ [c]) cs
      else if cur = [] then findall_word [] cs
      else cur # findall_word [] cs)"

definition tokenize :: "string \<Rightarrow> string list" where
  "tokenize text = findall_word [] (map lower_char text)"

subsection \<open>SimpleEmbedder\<close>

record SimpleEmbedder =
  vocab :: "(string \<times> nat) list"
  idf :: "(string \<times> real) list"
  fitted :: bool

definition SimpleEmbedder_init :: SimpleEmbedder where
  "SimpleEmbedder_init = \<lparr>vocab = [], idf = [], fitted = False\<rparr>"

text \<open>
  \<open>math.log((n + 1) / (df + 1)) + 1\<close>. Both operands of the division are positive
  integers, so neither the division nor the logarithm can raise.
\<close>

definition smoothed_idf :: "nat \<Rightarrow> nat \<Rightarrow> real" where
  "smoothed_idf n df = ln (real (n + 1) / real (df + 1)) + 1"

definition doc_freq :: "string list \<Rightarrow> (string \<times> nat) list" where
  "doc_freq documents =
     fold (\<lambda>doc df. fold (\<lambda>token df'. counter_add token 1 df') (set_iter (tokenize doc)) df)
       documents []"

definition fit :: "SimpleEmbedder \<Rightarrow> string list \<Rightarrow> SimpleEmbedder" where
  "fit self documents =
     (let n = length documents;
          idf' = map (\<lambda>(w, df). (w, smoothed_idf n df)) (doc_freq documents);
          vocab' = map (\<lambda>(i, w). (w, i)) (enumerate 0 (map fst idf'))
      in self\<lparr>vocab := vocab', idf := idf', fitted := True\<rparr>)"

text \<open>\<open>token in self.vocab\<close>.\<close>

definition in_vocab :: "SimpleEmbedder \<Rightarrow> string \<Rightarrow> bool" where
  "in_vocab self token = (map_of (vocab self) token \<noteq> None)"

text \<open>\<open>self.idf.get(token, 1.0)\<close>.\<close>

definition idf_get :: "SimpleEmbedder \<Rightarrow> string \<Rightarrow> real" where
  "idf_get self token = (case map_of (idf self) token of None \<Rightarrow> 1 | Some w \<Rightarrow> w)"

text \<open>
  The body of \<open>for token, count in tf.items()\<close> in \<open>encode\<close>; \<open>ntokens\<close> is
  \<open>len(tokens)\<close>.
\<close>

definition tfidf_assign ::
  "SimpleEmbedder \<Rightarrow> nat \<Rightarrow> string \<times> nat \<Rightarrow> real list \<Rightarrow> error + real list" where
  "tfidf_assign self ntokens tc vec =
     (case tc of (token, count) \<Rightarrow>
        (case map_of (vocab self) token of
           None \<Rightarrow> Inr vec
         | Some idx \<Rightarrow>
             (case py_truediv (real count) (real ntokens) of
                Inl e \<Rightarrow> Inl e
              | Inr q \<Rightarrow> py_setitem vec idx (q * idf_get self token))))"

definition raw_vector :: "SimpleEmbedder \<Rightarrow> string list \<Rightarrow> error + real list" where
  "raw_vector self tokens =
     fold_err (tfidf_assign self (length tokens)) (Counter tokens)
       (replicate (length (vocab self)) 0)"

text \<open>\<open>norm = math.sqrt(sum(v * v for v in vec)) or 1.0; vec = [v / norm for v in vec]\<close>.\<close>

definition l2_norm :: "real list \<Rightarrow> real" where
  "l2_norm vec = sqrt (sum_list (map (\<lambda>v. v * v) vec))"

definition l2_normalize :: "real list \<Rightarrow> real list" where
  "l2_normalize vec =
     (let norm = (if l2_norm vec = 0 then 1 else l2_norm vec)
      in map (\<lambda>v. v / norm) vec)"

text \<open>The body of the loop over \<open>texts\<close> in \<open>encode\<close>.\<close>

definition encode_text :: "SimpleEmbedder \<Rightarrow> string \<Rightarrow> error + real list" where
  "encode_text self text =
     (case raw_vector self (tokenize text) of
        Inl e \<Rightarrow> Inl e
      | Inr vec \<Rightarrow> Inr (l2_normalize vec))"

definition encode :: "SimpleEmbedder \<Rightarrow> string list \<Rightarrow> SimpleEmbedder \<times> (error + real list list)" where
  "encode self texts =
     (let self' = (if \<not> fitted self then fit self texts else self)
      in (self', map_err (encode_text self') texts))"

subsection \<open>Embedder backends\<close>

text \<open>
  The two embedder classes. \<open>SentenceTransformerEmbedder\<close> forwards to an external
  model, taken here as a function from the texts to their vectors; its \<open>fit\<close> does
  nothing.
\<close>

datatype embedder =
    SimpleEmb SimpleEmbedder
  | SentenceTransformerEmb "string list \<Rightarrow> real list list"

fun embedder_fit :: "embedder \<Rightarrow> string list \<Rightarrow> embedder" where
  "embedder_fit (SimpleEmb s) documents = SimpleEmb (fit s documents)"
| "embedder_fit (SentenceTransformerEmb m) documents = SentenceTransformerEmb m"

fun embedder_encode :: "embedder \<Rightarrow> string list \<Rightarrow> embedder \<times> (error + real list list)" where
  "embedder_encode (SimpleEmb s) texts = (SimpleEmb (fst (encode s texts)), snd (encode s texts))"
| "embedder_encode (SentenceTransformerEmb m) texts = (SentenceTransformerEmb m, Inr (m texts))"

text \<open>\<open>get_embedder(use_sentence_transformers=False)\<close>.\<close>

definition get_embedder_simple :: embedder where
  "get_embedder_simple = SimpleEmb SimpleEmbedder_init"

subsection \<open>Documents and results\<close>

text \<open>
  A document is a dictionary of which the code reads the keys \<open>"id"\<close> and
  \<open>"content"\<close>, both optional; an id is a string.
\<close>

record doc =
  doc_id :: "string option"
  content :: "string option"

text \<open>\<open>doc.get("content", "")\<close>.\<close>

definition get_content :: "doc \<Rightarrow> string" where
  "get_content d = (case content d of None \<Rightarrow> [] | Some s \<Rightarrow> s)"

text \<open>\<open>doc.get("id", i)\<close>: the key under which the merge files a document.\<close>

datatype key = StrKey string | IntKey nat

definition get_id :: "doc \<Rightarrow> nat \<Rightarrow> key" where
  "get_id d i = (case doc_id d of None \<Rightarrow> IntKey i | Some s \<Rightarrow> StrKey s)"

record vs_result =
  document :: doc
  relevance_score :: real

record search_result = vs_result +
  semantic_score :: real
  keyword_score :: real

record merged_entry =
  m_document :: doc
  m_semantic_score :: real
  m_keyword_score :: real

subsection \<open>FAISSVectorStore, brute-force path\<close>

text \<open>
  \<open>vs_vectors\<close> is the attribute \<open>_vectors\<close>, which \<open>__init__\<close> does not create:
  \<open>None\<close> says that it does not exist yet.
\<close>

record FAISSVectorStore =
  vs_embedder :: embedder
  vs_documents :: "doc list"
  vs_vectors :: "real list list option"

definition FAISSVectorStore_init :: "embedder option \<Rightarrow> FAISSVectorStore" where
  "FAISSVectorStore_init emb =
     \<lparr>vs_embedder = (case emb of None \<Rightarrow> get_embedder_simple | Some e \<Rightarrow> e),
      vs_documents = [], vs_vectors = None\<rparr>"

definition store_add_documents ::
  "FAISSVectorStore \<Rightarrow> doc list \<Rightarrow> FAISSVectorStore \<times> (error + unit)" where
  "store_add_documents self documents =
     (let self1 = self\<lparr>vs_documents := documents\<rparr>;
          texts = map get_content documents;
          emb1 = embedder_fit (vs_embedder self1) texts;
          enc = embedder_encode emb1 texts;
          self2 = self1\<lparr>vs_embedder := fst enc\<rparr>
      in case snd enc of
           Inl e \<Rightarrow> (self2, Inl e)
         | Inr vectors \<Rightarrow> (self2\<lparr>vs_vectors := Some vectors\<rparr>, Inr ()))"

definition dot :: "real list \<Rightarrow> real list \<Rightarrow> real" where
  "dot query_vec doc_vec = sum_list (map (\<lambda>(a, b). a * b) (zip query_vec doc_vec))"

text \<open>
  \<open>scores.sort(key=..., reverse=True)\<close> is a stable descending sort: elements with
  equal keys keep their order.
\<close>

definition sort_desc :: "('a \<Rightarrow> real) \<Rightarrow> 'a list \<Rightarrow> 'a list" where
  "sort_desc f xs = sort_key (\<lambda>x. - f x) xs"

text \<open>
  The list \<open>scores\<close> of \<open>_brute_force_search\<close> after the sort: the pairs of a dot
  product and a position, by descending dot product.
\<close>

definition ranked_positions :: "real list list \<Rightarrow> real list \<Rightarrow> (real \<times> nat) list" where
  "ranked_positions vectors query_vec =
     sort_desc fst (map (\<lambda>(i, doc_vec). (dot query_vec doc_vec, i)) (enumerate 0 vectors))"

definition brute_force_search ::
  "FAISSVectorStore \<Rightarrow> real list \<Rightarrow> int \<Rightarrow> error + vs_result list" where
  "brute_force_search self query_vec top_k =
     (case vs_vectors self of
        None \<Rightarrow> Inl AttributeError
      | Some vectors \<Rightarrow>
          map_err
            (\<lambda>(score, idx).
               case py_index (vs_documents self) idx of
                 Inl e \<Rightarrow> Inl e
               | Inr d \<Rightarrow> Inr \<lparr>document = d, relevance_score = round4 score\<rparr>)
            (py_slice_to (ranked_positions vectors query_vec) top_k))"

definition store_search ::
  "FAISSVectorStore \<Rightarrow> string \<Rightarrow> int \<Rightarrow> FAISSVectorStore \<times> (error + vs_result list)" where
  "store_search self query top_k =
     (let enc = embedder_encode (vs_embedder self) [query];
          self' = self\<lparr>vs_embedder := fst enc\<rparr>
      in case snd enc of
           Inl e \<Rightarrow> (self', Inl e)
         | Inr q_vec \<Rightarrow>
             (case py_index q_vec 0 of
                Inl e \<Rightarrow> (self', Inl e)
              | Inr qv \<Rightarrow> (self', brute_force_search self' qv top_k)))"

subsection \<open>HybridSearchEngine\<close>

text \<open>
  \<open>inverted_index\<close> is the attribute \<open>_inverted_index\<close>, created by
  \<open>add_documents\<close> only.
\<close>

record HybridSearchEngine =
  semantic_weight :: real
  keyword_weight :: real
  vector_store :: FAISSVectorStore
  he_documents :: "doc list"
  inverted_index :: "(string \<rightharpoonup> nat list) option"

definition HybridSearchEngine_init :: "real \<Rightarrow> HybridSearchEngine" where
  "HybridSearchEngine_init w =
     \<lparr>semantic_weight = w, keyword_weight = 1 - w,
      vector_store = FAISSVectorStore_init None,
      he_documents = [], inverted_index = None\<rparr>"

text \<open>\<open>index.setdefault(token, []).append(i)\<close>.\<close>

definition setdefault_append :: "string \<Rightarrow> nat \<Rightarrow> (string \<rightharpoonup> nat list) \<Rightarrow> (string \<rightharpoonup> nat list)" where
  "setdefault_append token i index =
     index(token \<mapsto> (case index token of None \<Rightarrow> [] | Some l \<Rightarrow> l) @ [i])"

definition build_index :: "doc list \<Rightarrow> (string \<rightharpoonup> nat list)" where
  "build_index documents =
     fold (\<lambda>(i, d) index.
             fold (\<lambda>token index'. setdefault_append token i index')
               (set_iter (tokenize (get_content d))) index)
       (enumerate 0 documents) Map.empty"

definition add_documents ::
  "HybridSearchEngine \<Rightarrow> doc list \<Rightarrow> HybridSearchEngine \<times> (error + unit)" where
  "add_documents self documents =
     (let self1 = self\<lparr>he_documents := documents\<rparr>;
          r = store_add_documents (vector_store self1) documents;
          self2 = self1\<lparr>vector_store := fst r\<rparr>
      in case snd r of
           Inl e \<Rightarrow> (self2, Inl e)
         | Inr u \<Rightarrow> (self2\<lparr>inverted_index := Some (build_index documents)\<rparr>, Inr ()))"

text \<open>\<open>max(values)\<close>.\<close>

fun py_max :: "real list \<Rightarrow> error + real" where
  "py_max [] = Inl ValueError"
| "py_max (x # xs) = Inr (fold max xs x)"

text \<open>The accumulation loop of \<open>_keyword_search\<close>.\<close>

definition keyword_accumulate ::
  "HybridSearchEngine \<Rightarrow> string list \<Rightarrow> error + (nat \<times> real) list" where
  "keyword_accumulate self query_tokens =
     fold_err
       (\<lambda>token scores.
          case inverted_index self of
            None \<Rightarrow> Inl AttributeError
          | Some index \<Rightarrow>
              (case index token of
                 None \<Rightarrow> Inr scores
               | Some matching_docs \<Rightarrow>
                   (let idf = smoothed_idf (length (he_documents self)) (length matching_docs)
                    in Inr (fold (\<lambda>doc_idx sc. counter_add doc_idx idf sc) matching_docs scores))))
       query_tokens []"

definition keyword_search :: "HybridSearchEngine \<Rightarrow> string \<Rightarrow> error + (nat \<times> real) list" where
  "keyword_search self query =
     (case keyword_accumulate self (tokenize query) of
        Inl e \<Rightarrow> Inl e
      | Inr scores \<Rightarrow>
          if scores \<noteq> [] then
            (case py_max (map snd scores) of
               Inl e \<Rightarrow> Inl e
             | Inr max_score \<Rightarrow>
                 map_err (\<lambda>(k, v). case py_truediv v max_score of
                                      Inl e \<Rightarrow> Inl e
                                    | Inr q \<Rightarrow> Inr (k, q)) scores)
          else Inr [])"

text \<open>\<open>d[k] = v\<close> on an insertion-ordered dict: an existing key keeps its place.\<close>

fun dict_set :: "'k \<Rightarrow> 'v \<Rightarrow> ('k \<times> 'v) list \<Rightarrow> ('k \<times> 'v) list" where
  "dict_set k v [] = [(k, v)]"
| "dict_set k v ((k', v') # d) =
     (if k = k' then (k', v) # d else (k', v') # dict_set k v d)"

text \<open>The first merge loop: the semantic results, keyed by \<open>get("id", i)\<close> with \<open>i\<close> the rank.\<close>

definition merge_semantic :: "vs_result list \<Rightarrow> (key \<times> merged_entry) list" where
  "merge_semantic semantic_results =
     fold (\<lambda>(i, result) merged.
             dict_set (get_id (document result) i)
               \<lparr>m_document = document result,
                m_semantic_score = relevance_score result,
                m_keyword_score = 0\<rparr> merged)
       (enumerate 0 semantic_results) []"

text \<open>The second merge loop: the keyword scores, keyed by \<open>get("id", doc_idx)\<close>.\<close>

definition merge_keyword ::
  "doc list \<Rightarrow> (nat \<times> real) list \<Rightarrow> (key \<times> merged_entry) list \<Rightarrow> error + (key \<times> merged_entry) list" where
  "merge_keyword documents keyword_scores merged0 =
     fold_err
       (\<lambda>(doc_idx, score) merged.
          case py_index documents doc_idx of
            Inl e \<Rightarrow> Inl e
          | Inr d \<Rightarrow>
              (let k = get_id d doc_idx
               in case map_of merged k of
                    Some entry \<Rightarrow> Inr (dict_set k (entry\<lparr>m_keyword_score := score\<rparr>) merged)
                  | None \<Rightarrow>
                      Inr (dict_set k
                             \<lparr>m_document = d, m_semantic_score = 0, m_keyword_score = score\<rparr>
                             merged)))
       keyword_scores merged0"

text \<open>The scoring loop, the sort and the truncation.\<close>

definition fused :: "real \<Rightarrow> real \<Rightarrow> merged_entry \<Rightarrow> real" where
  "fused sw kw data = sw * m_semantic_score data + kw * m_keyword_score data"

definition combine :: "real \<Rightarrow> real \<Rightarrow> merged_entry \<Rightarrow> search_result" where
  "combine sw kw data =
     (let combined = fused sw kw data
      in \<lparr>document = m_document data,
          relevance_score = round4 combined,
          semantic_score = round4 (m_semantic_score data),
          keyword_score = round4 (m_keyword_score data)\<rparr>)"

definition rank_merged ::
  "real \<Rightarrow> real \<Rightarrow> (key \<times> merged_entry) list \<Rightarrow> int \<Rightarrow> search_result list" where
  "rank_merged sw kw merged top_k =
     py_slice_to (sort_desc relevance_score (map (\<lambda>(k, data). combine sw kw data) merged)) top_k"

text \<open>
  \<open>search\<close> up to the end of the two merge loops: the dictionary \<open>merged\<close>, or the
  exception raised before it is complete.
\<close>

definition search_merged ::
  "HybridSearchEngine \<Rightarrow> string \<Rightarrow> int \<Rightarrow> HybridSearchEngine \<times> (error + (key \<times> merged_entry) list)" where
  "search_merged self query top_k =
     (let r = store_search (vector_store self) query (top_k * 2);
          self' = self\<lparr>vector_store := fst r\<rparr>
      in case snd r of
           Inl e \<Rightarrow> (self', Inl e)
         | Inr semantic_results \<Rightarrow>
             (case keyword_search self' query of
                Inl e \<Rightarrow> (self', Inl e)
              | Inr keyword_scores \<Rightarrow>
                  (self', merge_keyword (he_documents self') keyword_scores
                            (merge_semantic semantic_results))))"

definition search ::
  "HybridSearchEngine \<Rightarrow> string \<Rightarrow> int \<Rightarrow> HybridSearchEngine \<times> (error + search_result list)" where
  "search self query top_k =
     (let m = search_merged self query top_k;
          self' = fst m
      in case snd m of
           Inl e \<Rightarrow> (self', Inl e)
         | Inr merged \<Rightarrow>
             (self', Inr (rank_merged (semantic_weight self') (keyword_weight self')
                            merged top_k)))"

text \<open>\<open>create_rag_engine(documents, hybrid=True, semantic_weight)\<close>.\<close>

definition create_rag_engine :: "doc list \<Rightarrow> real \<Rightarrow> HybridSearchEngine \<times> (error + unit)" where
  "create_rag_engine documents w = add_documents (HybridSearchEngine_init w) documents"

text \<open>
  An engine that is searched again and again: \<open>search_all self qs\<close> is the engine after
  the calls \<open>search(query, top_k)\<close> for the pairs of \<open>qs\<close>, in order, whatever they
  returned or raised.
\<close>

definition search_all :: "HybridSearchEngine \<Rightarrow> (string \<times> int) list \<Rightarrow> HybridSearchEngine" where
  "search_all self qs = fold (\<lambda>(query, top_k) e. fst (search e query top_k)) qs self"

subsection \<open>Reference definitions for the keyword index\<close>

text \<open>
  The posting list of a token as the specification describes it: the positions of the
  documents that contain the token at least once, in increasing order.
\<close>

definition posting :: "doc list \<Rightarrow> string \<Rightarrow> nat list" where
  "posting documents token =
     filter (\<lambda>i. token \<in> set (tokenize (get_content (documents ! i)))) [0..<length documents]"

text \<open>
  The accumulated keyword score of the document at position \<open>d\<close> as the specification
  describes it: every occurrence of a query token whose posting list contains \<open>d\<close>
  adds the smoothed inverse document frequency of that token.
\<close>

definition keyword_raw_spec :: "doc list \<Rightarrow> string list \<Rightarrow> nat \<Rightarrow> real" where
  "keyword_raw_spec documents query_tokens d =
     sum_list (map (\<lambda>t. smoothed_idf (length documents) (length (posting documents t)))
                 (filter (\<lambda>t. d \<in> set (posting documents t)) query_tokens))"

definition keyword_hits :: "doc list \<Rightarrow> string list \<Rightarrow> nat list" where
  "keyword_hits documents query_tokens =
     filter (\<lambda>d. \<exists>t \<in> set query_tokens. d \<in> set (posting documents t)) [0..<length documents]"

text \<open>
  The normalised keyword scores as the specification describes them: the accumulated
  score divided by the largest accumulated score, for the documents hit by the query.
\<close>

definition keyword_score_spec :: "doc list \<Rightarrow> string \<Rightarrow> nat \<rightharpoonup> real" where
  "keyword_score_spec documents query =
     (let toks = tokenize query;
          hits = keyword_hits documents toks
      in (\<lambda>d. if d \<in> set hits
               then Some (keyword_raw_spec documents toks d /
                          Max (set (map (keyword_raw_spec documents toks) hits)))
               else None))"

subsection \<open>Reference definitions for the merge\<close>

text \<open>
  The results of the vector search for a store that holds \<open>documents\<close> and
  \<open>vectors\<close>, when no position is out of range.
\<close>

definition semantic_results :: "doc list \<Rightarrow> real list list \<Rightarrow> real list \<Rightarrow> int \<Rightarrow> vs_result list" where
  "semantic_results documents vectors query_vec top_k =
     map (\<lambda>(score, idx). \<lparr>document = documents ! idx, relevance_score = round4 score\<rparr>)
       (py_slice_to (ranked_positions vectors query_vec) top_k)"

text \<open>
  The body of the second merge loop for a document \<open>d\<close> filed under the key \<open>k\<close>,
  and for a position that is not out of range.
\<close>

definition merge_keyed_step ::
  "key \<times> doc \<times> real \<Rightarrow> (key \<times> merged_entry) list \<Rightarrow> (key \<times> merged_entry) list" where
  "merge_keyed_step kds merged =
     (case kds of (k, d, score) \<Rightarrow>
        (case map_of merged k of
           Some entry \<Rightarrow> dict_set k (entry\<lparr>m_keyword_score := score\<rparr>) merged
         | None \<Rightarrow>
             dict_set k \<lparr>m_document = d, m_semantic_score = 0, m_keyword_score = score\<rparr> merged))"

definition merge_keyword_step ::
  "doc list \<Rightarrow> nat \<times> real \<Rightarrow> (key \<times> merged_entry) list \<Rightarrow> (key \<times> merged_entry) list" where
  "merge_keyword_step documents ds merged =
     (case ds of (doc_idx, score) \<Rightarrow>
        merge_keyed_step (get_id (documents ! doc_idx) doc_idx, documents ! doc_idx, score) merged)"

text \<open>Every document carries an id and no two documents share one.\<close>

definition ids_distinct :: "doc list \<Rightarrow> bool" where
  "ids_distinct documents =
     ((\<forall>d \<in> set documents. doc_id d \<noteq> None) \<and> distinct (map doc_id documents))"

text \<open>What a call returned: the list, or nothing when it raised.\<close>

definition returned :: "error + 'a list \<Rightarrow> 'a list" where
  "returned r = (case r of Inl e \<Rightarrow> [] | Inr xs \<Rightarrow> xs)"

text \<open>The ranking of pure vector search: the documents of \<open>vector_store.search\<close>.\<close>

definition vector_ranking :: "HybridSearchEngine \<Rightarrow> string \<Rightarrow> int \<Rightarrow> doc list" where
  "vector_ranking self query top_k =
     map document (returned (snd (store_search (vector_store self) query top_k)))"

text \<open>The value a counter holds for a key: zero when the key is missing.\<close>

definition counter_val :: "('k \<times> real) list \<Rightarrow> 'k \<Rightarrow> real" where
  "counter_val c k = (case map_of c k of None \<Rightarrow> 0 | Some x \<Rightarrow> x)"

subsection \<open>Example corpora\<close>

definition example_docs :: "doc list" where
  "example_docs =
     [\<lparr>doc_id = Some ''A'', content = Some ''a b''\<rparr>,
      \<lparr>doc_id = Some ''B'', content = Some ''b c''\<rparr>]"

text \<open>
  A store whose embedder is an external model that returns a 5-dimensional and a
  4-dimensional vector.
\<close>

definition ragged_store :: FAISSVectorStore where
  "ragged_store =
     FAISSVectorStore_init
       (Some (SentenceTransformerEmb (\<lambda>texts. [[1, 0, 0, 0, 0], [1, 0, 0, 0]])))"

text \<open>
  The ranking of pure keyword scoring under the tie-break rule of the merge. The
  candidates are the documents in their first-seen order in the merge (the results of the
  vector search for \<open>2 * top_k\<close>, then the documents only the keyword search found);
  they are sorted by descending keyword score, a document without one counting as zero,
  ties keeping the first-seen order. \<open>rnd\<close> is applied to the score before comparing:
  the identity for the exact scores.
\<close>

definition keyword_ranking ::
  "(real \<Rightarrow> real) \<Rightarrow> HybridSearchEngine \<Rightarrow> string \<Rightarrow> int \<Rightarrow> doc list" where
  "keyword_ranking rnd self query top_k =
     (let sem_docs = vector_ranking self query (top_k * 2);
          kw_docs = map (\<lambda>(d, v). (he_documents self ! d, v))
                      (returned (keyword_search self query));
          candidates = sem_docs @ filter (\<lambda>d. d \<notin> set sem_docs) (map fst kw_docs)
      in py_slice_to (sort_desc (\<lambda>d. rnd (counter_val kw_docs d)) candidates) top_k)"

section \<open>Counters\<close>

lemma counter_add_keys: "fst ` set (counter_add k v c) = insert k (fst ` set c)"
proof (induction c)
  case Nil
  show ?case by simp
next
  case (Cons a c)
  obtain k' v' where a: "a = (k', v')" by (cases a)
  show ?case
  proof (cases "k = k'")
    case True
    then show ?thesis by (simp add: a)
  next
    case False
    then show ?thesis using Cons.IH by (simp add: a insert_commute)
  qed
qed

lemma counter_add_distinct: "distinct (map fst c) \<Longrightarrow> distinct (map fst (counter_add k v c))"
proof (induction c)
  case Nil
  then show ?case by simp
next
  case (Cons a c)
  obtain k' v' where a: "a = (k', v')" by (cases a)
  from Cons show ?case
    using counter_add_keys [of k v c] by (auto simp add: a)
qed

lemma map_of_counter_add:
  "map_of (counter_add k v c) k' =
     (if k' = k then Some (case map_of c k of None \<Rightarrow> v | Some x \<Rightarrow> x + v) else map_of c k')"
  by (induction c) auto

lemma counter_add_nonempty: "counter_add k v c \<noteq> []"
  by (cases c) (auto split: if_splits)

lemma fold_counter_keys:
  "fst ` set (fold (\<lambda>x c. counter_add x v c) xs c0) = set xs \<union> fst ` set c0"
  by (induction xs arbitrary: c0) (auto simp add: counter_add_keys)

lemma fold_counter_distinct:
  "distinct (map fst c0) \<Longrightarrow> distinct (map fst (fold (\<lambda>x c. counter_add x v c) xs c0))"
  by (induction xs arbitrary: c0) (auto simp add: counter_add_distinct)

lemma Counter_keys: "fst ` set (Counter xs) = set xs"
  by (simp add: Counter_def fold_counter_keys)

lemma Counter_distinct: "distinct (map fst (Counter xs))"
  by (simp add: Counter_def fold_counter_distinct)

lemma map_of_fold_counter_nat:
  "map_of (fold (\<lambda>x c. counter_add x (1::nat) c) xs c0) t =
     (if t \<in> set xs then Some ((case map_of c0 t of None \<Rightarrow> 0 | Some n \<Rightarrow> n) + count_list xs t)
      else map_of c0 t)"
  by (induction xs arbitrary: c0) (auto simp add: map_of_counter_add split: option.splits)

lemma map_of_Counter:
  "map_of (Counter xs) t = (if t \<in> set xs then Some (count_list xs t) else None)"
  by (simp add: Counter_def map_of_fold_counter_nat del: One_nat_def)

section \<open>The frequency embedder\<close>

subsection \<open>Vocabulary and inverse document frequency\<close>

lemma map_of_enumerate_swap_Some:
  "map_of (map (\<lambda>(i, w). (w, i)) (enumerate n ws)) t = Some i \<Longrightarrow>
     n \<le> i \<and> i < n + length ws \<and> ws ! (i - n) = t"
proof (induction ws arbitrary: n)
  case Nil
  then show ?case by simp
next
  case (Cons w ws)
  show ?case
  proof (cases "w = t")
    case True
    with Cons.prems show ?thesis by simp
  next
    case False
    with Cons.prems have "map_of (map (\<lambda>(i, w). (w, i)) (enumerate (Suc n) ws)) t = Some i"
      by simp
    from Cons.IH [OF this] have "Suc n \<le> i" "i < Suc n + length ws" "ws ! (i - Suc n) = t"
      by simp_all
    moreover from \<open>Suc n \<le> i\<close> have "i - n = Suc (i - Suc n)" by simp
    ultimately show ?thesis by simp
  qed
qed

lemma map_of_enumerate_swap_nth:
  "distinct ws \<Longrightarrow> j < length ws \<Longrightarrow>
     map_of (map (\<lambda>(i, w). (w, i)) (enumerate n ws)) (ws ! j) = Some (n + j)"
proof (induction ws arbitrary: n j)
  case Nil
  then show ?case by simp
next
  case (Cons w ws)
  show ?case
  proof (cases j)
    case 0
    then show ?thesis by simp
  next
    case (Suc j')
    with Cons.prems have "ws ! j' \<noteq> w" by auto
    with Cons.prems Suc Cons.IH [of j' "Suc n"] show ?thesis by simp
  qed
qed

lemma distinct_count_list_1: "distinct xs \<Longrightarrow> x \<in> set xs \<Longrightarrow> count_list xs x = 1"
  by (induction xs) auto

lemma map_of_enumerate_swap_None:
  "t \<notin> set ws \<Longrightarrow> map_of (map (\<lambda>(i, w). (w, i)) (enumerate n ws)) t = None"
  by (induction ws arbitrary: n) auto

lemma doc_freq_distinct: "distinct (map fst (doc_freq documents))"
proof -
  have "distinct (map fst c0) \<Longrightarrow>
        distinct (map fst (fold (\<lambda>doc df. fold (\<lambda>token df'. counter_add token (1::nat) df')
           (set_iter (tokenize doc)) df) ds c0))" for ds and c0 :: "(string \<times> nat) list"
    by (induction ds arbitrary: c0) (simp_all add: fold_counter_distinct del: One_nat_def)
  then show ?thesis by (simp add: doc_freq_def del: One_nat_def)
qed

lemma doc_freq_bound_aux:
  "\<forall>(t, c) \<in> set c0. 1 \<le> c \<and> c \<le> m \<Longrightarrow> distinct (map fst c0) \<Longrightarrow>
     \<forall>(t, c) \<in> set (fold (\<lambda>doc df. fold (\<lambda>token df'. counter_add token (1::nat) df')
           (set_iter (tokenize doc)) df) ds c0). 1 \<le> c \<and> c \<le> m + length ds"
proof (induction ds arbitrary: c0 m)
  case Nil
  then show ?case by simp
next
  case (Cons d ds)
  let ?ts = "set_iter (tokenize d)"
  let ?c1 = "fold (\<lambda>token df'. counter_add token (1::nat) df') ?ts c0"
  have d1: "distinct (map fst ?c1)" using Cons.prems(2) by (rule fold_counter_distinct)
  have dts: "distinct ?ts" by (simp add: set_iter_def)
  have b1: "\<forall>(t, c) \<in> set ?c1. 1 \<le> c \<and> c \<le> Suc m"
  proof (clarify)
    fix t c assume tc: "(t, c) \<in> set ?c1"
    with d1 have mo: "map_of ?c1 t = Some c" by simp
    show "1 \<le> c \<and> c \<le> Suc m"
    proof (cases "t \<in> set ?ts")
      case True
      then have cl: "count_list ?ts t = 1" using dts
        by (simp add: distinct_count_list_1)
      show ?thesis
      proof (cases "map_of c0 t")
        case None
        with mo True cl show ?thesis by (simp add: map_of_fold_counter_nat del: One_nat_def)
      next
        case (Some c')
        then have "(t, c') \<in> set c0" by (rule map_of_SomeD)
        with Cons.prems(1) have "c' \<le> m" by auto
        with mo True cl Some show ?thesis by (simp add: map_of_fold_counter_nat del: One_nat_def)
      qed
    next
      case False
      with mo have "map_of c0 t = Some c" by (simp add: map_of_fold_counter_nat del: One_nat_def)
      then have "(t, c) \<in> set c0" by (rule map_of_SomeD)
      with Cons.prems(1) show ?thesis by auto
    qed
  qed
  from Cons.IH [OF b1 d1] show ?case by simp
qed

lemma doc_freq_bound:
  "(t, c) \<in> set (doc_freq documents) \<Longrightarrow> 1 \<le> c \<and> c \<le> length documents"
  using doc_freq_bound_aux [of "[]" 0 documents] by (auto simp add: doc_freq_def simp del: One_nat_def)

lemma smoothed_idf_ge_1: "df \<le> n \<Longrightarrow> 1 \<le> smoothed_idf n df"
proof -
  assume "df \<le> n"
  then have "1 \<le> real (n + 1) / real (df + 1)" by simp
  then have "0 \<le> ln (real (n + 1) / real (df + 1))" by (rule ln_ge_zero)
  then show ?thesis by (simp add: smoothed_idf_def)
qed

lemma fit_vocab:
  "vocab (fit s documents) = map (\<lambda>(i, w). (w, i)) (enumerate 0 (map fst (doc_freq documents)))"
  by (simp add: fit_def Let_def comp_def case_prod_unfold)

lemma fit_idf:
  "idf (fit s documents) =
     map (\<lambda>(w, df). (w, smoothed_idf (length documents) df)) (doc_freq documents)"
  by (simp add: fit_def Let_def)

lemma fit_fitted: "fitted (fit s documents)"
  by (simp add: fit_def Let_def)

lemma fit_idf_get_ge_1: "1 \<le> idf_get (fit s documents) t"
proof (cases "map_of (idf (fit s documents)) t")
  case None
  then show ?thesis by (simp add: idf_get_def)
next
  case (Some w)
  then have "(t, w) \<in> set (idf (fit s documents))" by (rule map_of_SomeD)
  then obtain df where "(t, df) \<in> set (doc_freq documents)"
    and w: "w = smoothed_idf (length documents) df"
    by (auto simp add: fit_idf)
  then have "df \<le> length documents" using doc_freq_bound by blast
  then show ?thesis using Some w by (simp add: idf_get_def smoothed_idf_ge_1)
qed

subsection \<open>The raw TF-IDF vector\<close>

lemma tfidf_assign_step:
  assumes voc: "vocab self = map (\<lambda>(i, w). (w, i)) (enumerate 0 ws)"
    and dws: "distinct ws"
    and len: "length vec0 = length ws"
    and L: "0 < L"
  shows "\<exists>vec. tfidf_assign self L (t, c) vec0 = Inr vec \<and> length vec = length ws \<and>
           (\<forall>i<length ws. vec ! i =
              (if ws ! i = t then real c / real L * idf_get self t else vec0 ! i))"
proof (cases "map_of (vocab self) t")
  case None
  have "t \<notin> set ws"
  proof
    assume "t \<in> set ws"
    then obtain j where "j < length ws" "ws ! j = t" by (auto simp add: in_set_conv_nth)
    with map_of_enumerate_swap_nth [OF dws, of j 0] None voc show False by simp
  qed
  then have "\<forall>i<length ws. ws ! i \<noteq> t" by auto
  with None len show ?thesis by (simp add: tfidf_assign_def)
next
  case (Some idx)
  with voc have "idx < length ws" "ws ! idx = t"
    using map_of_enumerate_swap_Some [of 0 ws t idx] by simp_all
  have eq: "tfidf_assign self L (t, c) vec0 = Inr (vec0[idx := real c / real L * idf_get self t])"
    using Some L len \<open>idx < length ws\<close>
    by (simp add: tfidf_assign_def py_truediv_def py_setitem_def)
  have "\<forall>i<length ws. (vec0[idx := real c / real L * idf_get self t]) ! i =
          (if ws ! i = t then real c / real L * idf_get self t else vec0 ! i)"
  proof (intro allI impI)
    fix i assume i: "i < length ws"
    show "(vec0[idx := real c / real L * idf_get self t]) ! i =
          (if ws ! i = t then real c / real L * idf_get self t else vec0 ! i)"
    proof (cases "i = idx")
      case True
      with \<open>ws ! idx = t\<close> \<open>idx < length ws\<close> len show ?thesis by simp
    next
      case False
      with dws i \<open>idx < length ws\<close> \<open>ws ! idx = t\<close> have "ws ! i \<noteq> t"
        by (auto simp add: nth_eq_iff_index_eq)
      with False show ?thesis by simp
    qed
  qed
  with eq len show ?thesis by simp
qed

lemma fold_tfidf_assign:
  assumes voc: "vocab self = map (\<lambda>(i, w). (w, i)) (enumerate 0 ws)"
    and dws: "distinct ws"
  shows "length vec0 = length ws \<Longrightarrow> distinct (map fst tf) \<Longrightarrow> (tf \<noteq> [] \<longrightarrow> 0 < L) \<Longrightarrow>
     \<exists>vec. fold_err (tfidf_assign self L) tf vec0 = Inr vec \<and> length vec = length ws \<and>
       (\<forall>i<length ws. vec ! i =
          (case map_of tf (ws ! i) of
             None \<Rightarrow> vec0 ! i
           | Some c \<Rightarrow> real c / real L * idf_get self (ws ! i)))"
proof (induction tf arbitrary: vec0)
  case Nil
  then show ?case by simp
next
  case (Cons tc tf)
  obtain t c where tc: "tc = (t, c)" by (cases tc)
  from Cons.prems have L: "0 < L" by simp
  from tfidf_assign_step [OF voc dws Cons.prems(1) L, of t c]
  obtain vec1 where s1: "tfidf_assign self L (t, c) vec0 = Inr vec1"
    and l1: "length vec1 = length ws"
    and v1: "\<forall>i<length ws. vec1 ! i =
              (if ws ! i = t then real c / real L * idf_get self t else vec0 ! i)"
    by blast
  from Cons.prems tc have d: "distinct (map fst tf)" and tn: "t \<notin> fst ` set tf" by simp_all
  from Cons.IH [OF l1 d] L
  obtain vec where s2: "fold_err (tfidf_assign self L) tf vec1 = Inr vec"
    and l2: "length vec = length ws"
    and v2: "\<forall>i<length ws. vec ! i =
          (case map_of tf (ws ! i) of
             None \<Rightarrow> vec1 ! i
           | Some c \<Rightarrow> real c / real L * idf_get self (ws ! i))"
    by blast
  from tn have mt: "map_of tf t = None" by (simp add: map_of_eq_None_iff)
  have "\<forall>i<length ws. vec ! i =
          (case map_of (tc # tf) (ws ! i) of
             None \<Rightarrow> vec0 ! i
           | Some c \<Rightarrow> real c / real L * idf_get self (ws ! i))"
  proof (intro allI impI)
    fix i assume i: "i < length ws"
    show "vec ! i = (case map_of (tc # tf) (ws ! i) of
             None \<Rightarrow> vec0 ! i
           | Some c \<Rightarrow> real c / real L * idf_get self (ws ! i))"
    proof (cases "ws ! i = t")
      case True
      with v1 v2 i mt tc show ?thesis by simp
    next
      case False
      with v1 v2 i tc show ?thesis by (simp split: option.splits)
    qed
  qed
  with s1 s2 l2 tc show ?case by simp
qed

lemma raw_vector_fit:
  fixes s documents tokens
  defines "self \<equiv> fit s documents"
  defines "ws \<equiv> map fst (doc_freq documents)"
  shows "\<exists>vec. raw_vector self tokens = Inr vec \<and> length vec = length ws \<and>
     (\<forall>i<length ws. vec ! i =
        real (count_list tokens (ws ! i)) / real (length tokens) * idf_get self (ws ! i))"
proof -
  have voc: "vocab self = map (\<lambda>(i, w). (w, i)) (enumerate 0 ws)"
    by (simp add: self_def ws_def fit_vocab)
  have dws: "distinct ws" by (simp add: ws_def doc_freq_distinct)
  have lv: "length (vocab self) = length ws" by (simp add: voc)
  have ne: "Counter tokens \<noteq> [] \<longrightarrow> 0 < length tokens"
    using Counter_keys [of tokens] by (cases tokens) auto
  from fold_tfidf_assign [OF voc dws, of "replicate (length ws) 0" "Counter tokens" "length tokens"]
    Counter_distinct [of tokens] ne
  obtain vec where r: "fold_err (tfidf_assign self (length tokens)) (Counter tokens)
       (replicate (length ws) 0) = Inr vec" and l: "length vec = length ws"
    and v: "\<forall>i<length ws. vec ! i =
          (case map_of (Counter tokens) (ws ! i) of
             None \<Rightarrow> replicate (length ws) 0 ! i
           | Some c \<Rightarrow> real c / real (length tokens) * idf_get self (ws ! i))"
    by auto
  have "\<forall>i<length ws. vec ! i =
        real (count_list tokens (ws ! i)) / real (length tokens) * idf_get self (ws ! i)"
    using v by (simp add: map_of_Counter)
  with r l lv show ?thesis by (simp add: raw_vector_def)
qed

subsection \<open>Normalisation\<close>

lemma sum_squares_nonneg: "0 \<le> sum_list (map (\<lambda>v. v * v) (vec :: real list))"
  by (induction vec) simp_all

lemma sum_squares_zero_iff:
  "sum_list (map (\<lambda>v. v * v) (vec :: real list)) = 0 \<longleftrightarrow> (\<forall>v \<in> set vec. v = 0)"
proof (induction vec)
  case Nil
  show ?case by simp
next
  case (Cons a vec)
  have "0 \<le> a * a" by simp
  with sum_squares_nonneg [of vec]
  have "a * a + sum_list (map (\<lambda>v. v * v) vec) = 0 \<longleftrightarrow>
        a * a = 0 \<and> sum_list (map (\<lambda>v. v * v) vec) = 0"
    by (simp add: add_nonneg_eq_0_iff)
  with Cons.IH show ?case by simp
qed

lemma l2_norm_nonneg: "0 \<le> l2_norm vec"
  by (simp add: l2_norm_def sum_squares_nonneg)

lemma l2_norm_zero_iff: "l2_norm vec = 0 \<longleftrightarrow> (\<forall>v \<in> set vec. v = 0)"
  by (simp add: l2_norm_def sum_squares_zero_iff)

lemma sum_squares_scale:
  "sum_list (map (\<lambda>v. v * v) (map (\<lambda>x. x / c) (u :: real list))) =
     sum_list (map (\<lambda>v. v * v) u) / (c * c)"
  by (induction u) (simp_all add: add_divide_distrib)

lemma l2_norm_scale: "0 < c \<Longrightarrow> l2_norm (map (\<lambda>x. x / c) u) = l2_norm u / c"
proof -
  assume c: "0 < c"
  have "l2_norm (map (\<lambda>x. x / c) u) = sqrt (sum_list (map (\<lambda>v. v * v) u) / (c * c))"
    by (simp only: l2_norm_def sum_squares_scale)
  also have "\<dots> = sqrt (sum_list (map (\<lambda>v. v * v) u)) / sqrt (c * c)"
    by (rule real_sqrt_divide)
  also have "sqrt (c * c) = c" using c by simp
  finally show ?thesis by (simp add: l2_norm_def)
qed

lemma l2_normalize_length: "length (l2_normalize vec) = length vec"
  by (simp add: l2_normalize_def Let_def)

lemma l2_normalize_zero: "l2_norm vec = 0 \<Longrightarrow> l2_normalize vec = replicate (length vec) 0"
proof -
  assume z: "l2_norm vec = 0"
  then have "\<forall>v \<in> set vec. v = 0" by (simp add: l2_norm_zero_iff)
  then have "vec = replicate (length vec) 0"
    by (simp add: list_eq_iff_nth_eq)
  moreover from z have "l2_normalize vec = vec"
    by (simp add: l2_normalize_def)
  ultimately show ?thesis by simp
qed

lemma l2_normalize_unit: "l2_norm vec \<noteq> 0 \<Longrightarrow> l2_norm (l2_normalize vec) = 1"
proof -
  assume nz: "l2_norm vec \<noteq> 0"
  with l2_norm_nonneg [of vec] have pos: "0 < l2_norm vec" by simp
  from nz have "l2_normalize vec = map (\<lambda>x. x / l2_norm vec) vec"
    by (simp add: l2_normalize_def)
  with l2_norm_scale [OF pos, of vec] nz show ?thesis by simp
qed

lemma l2_normalize_scale: "0 < c \<Longrightarrow> l2_normalize (map (\<lambda>x. x / c) u) = l2_normalize u"
proof (cases "l2_norm u = 0")
  case True
  assume c: "0 < c"
  from True have z: "\<forall>v \<in> set u. v = 0" by (simp add: l2_norm_zero_iff)
  then have "map (\<lambda>x. x / c) u = u" by (induction u) simp_all
  then show ?thesis by simp
next
  case False
  assume c: "0 < c"
  from False c have nz: "l2_norm (map (\<lambda>x. x / c) u) \<noteq> 0"
    by (simp add: l2_norm_scale)
  have "l2_normalize (map (\<lambda>x. x / c) u) = map (\<lambda>x. x / c / (l2_norm u / c)) u"
    using nz c by (simp add: l2_normalize_def l2_norm_scale comp_def)
  also have "\<dots> = map (\<lambda>x. x / l2_norm u) u" using c by simp
  also have "\<dots> = l2_normalize u" using False by (simp add: l2_normalize_def)
  finally show ?thesis .
qed

subsection \<open>Encoding\<close>

lemma in_vocab_fit: "in_vocab (fit s documents) t \<longleftrightarrow> t \<in> set (map fst (doc_freq documents))"
proof
  assume "in_vocab (fit s documents) t"
  then obtain i where "map_of (vocab (fit s documents)) t = Some i"
    by (auto simp add: in_vocab_def)
  then show "t \<in> set (map fst (doc_freq documents))"
    using map_of_enumerate_swap_Some [of 0 "map fst (doc_freq documents)" t i]
    by (simp only: fit_vocab) (metis add_0 diff_zero nth_mem)
next
  assume "t \<in> set (map fst (doc_freq documents))"
  then obtain j where "j < length (map fst (doc_freq documents))"
    "map fst (doc_freq documents) ! j = t"
    by (auto simp only: in_set_conv_nth)
  with map_of_enumerate_swap_nth [OF doc_freq_distinct, of j documents 0]
  show "in_vocab (fit s documents) t" by (simp only: fit_vocab in_vocab_def) auto
qed

lemma count_list_filter: "count_list (filter P xs) x = (if P x then count_list xs x else 0)"
  by (induction xs) auto

text \<open>The encoding of a text, in closed form.\<close>

lemma encode_text_fit:
  fixes s documents and x :: string
  defines "self \<equiv> fit s documents"
  defines "ws \<equiv> map fst (doc_freq documents)"
  defines "toks \<equiv> filter (in_vocab self) (tokenize x)"
  shows "encode_text self x =
     Inr (l2_normalize (map (\<lambda>w. real (count_list toks w) * idf_get self w) ws))"
proof -
  let ?L = "length (tokenize x)"
  let ?u = "map (\<lambda>w. real (count_list toks w) * idf_get self w) ws"
  from raw_vector_fit [of s documents "tokenize x"]
  obtain vec where r: "raw_vector self (tokenize x) = Inr vec"
    and l: "length vec = length ws"
    and v: "\<forall>i<length ws. vec ! i =
        real (count_list (tokenize x) (ws ! i)) / real ?L * idf_get self (ws ! i)"
    unfolding self_def ws_def by blast
  have cnt: "count_list toks (ws ! i) = count_list (tokenize x) (ws ! i)" if "i < length ws" for i
  proof -
    from that have "ws ! i \<in> set ws" by simp
    then have "in_vocab self (ws ! i)" by (simp add: self_def ws_def in_vocab_fit)
    then show ?thesis by (simp add: toks_def count_list_filter)
  qed
  have raw: "vec = map (\<lambda>x. x / real ?L) ?u"
    by (rule nth_equalityI) (simp_all add: l v cnt)
  have "l2_normalize vec = l2_normalize ?u"
  proof (cases "?L = 0")
    case True
    then have "toks = []" by (simp add: toks_def)
    have u0: "?u = replicate (length ws) 0"
      by (simp add: \<open>toks = []\<close> map_replicate_const)
    have "vec = replicate (length ws) 0"
      by (simp add: raw u0 True)
    with u0 show ?thesis by simp
  next
    case False
    then have "0 < real ?L" by simp
    from l2_normalize_scale [OF this, of ?u] raw show ?thesis by simp
  qed
  with r show ?thesis by (simp add: encode_text_def)
qed

lemma weights_norm_zero_iff:
  fixes s documents
  defines "self \<equiv> fit s documents"
  defines "ws \<equiv> map fst (doc_freq documents)"
  shows "l2_norm (map (\<lambda>w. real (count_list toks w) * idf_get self w) ws) = 0 \<longleftrightarrow>
     (\<forall>t \<in> set toks. \<not> in_vocab self t)"
proof -
  have pos: "idf_get self w \<noteq> 0" for w
    using fit_idf_get_ge_1 [of s documents w] by (simp add: self_def)
  have "l2_norm (map (\<lambda>w. real (count_list toks w) * idf_get self w) ws) = 0 \<longleftrightarrow>
        (\<forall>w \<in> set ws. count_list toks w = 0)"
    by (simp add: l2_norm_zero_iff pos)
  also have "\<dots> \<longleftrightarrow> (\<forall>w \<in> set ws. w \<notin> set toks)"
    by (simp add: count_list_0_iff)
  also have "\<dots> \<longleftrightarrow> (\<forall>t \<in> set toks. \<not> in_vocab self t)"
    unfolding self_def ws_def in_vocab_fit by blast
  finally show ?thesis .
qed

lemma map_err_all_ok:
  "\<forall>x \<in> set xs. f x = Inr (g x) \<Longrightarrow> map_err f xs = Inr (map g xs)"
  by (induction xs) simp_all


lemma tok1: "tokenize ''a b'' = [''a'', ''b'']" by code_simp
lemma tok2: "tokenize ''a x'' = [''a'', ''x'']" by code_simp
lemma tok3: "tokenize ''a'' = [''a'']" by code_simp
lemma df1: "doc_freq [''a b''] = [(''a'', 1), (''b'', 1)]" by code_simp


text \<open>
  Claim C8. For an embedder produced by \<open>fit\<close> and any list of texts, \<open>encode\<close>
  leaves the embedder unchanged and returns (never raising) one vector per text. Each vector
  has the length of the vocabulary. If the text has a token of the vocabulary the vector
  has L2 norm 1, otherwise (empty or entirely out-of-vocabulary text) it is the zero
  vector. Out-of-vocabulary tokens contribute nothing: any text with the same
  in-vocabulary tokens has the same encoding.
\<close>

theorem encode_fitted:
  fixes s :: SimpleEmbedder and documents texts :: "string list"
  defines "self \<equiv> fit s documents"
  shows "\<exists>vectors. encode self texts = (self, Inr vectors) \<and> length vectors = length texts \<and>
    (\<forall>j<length texts.
        length (vectors ! j) = length (vocab self) \<and>
        (if \<exists>t \<in> set (tokenize (texts ! j)). in_vocab self t
         then l2_norm (vectors ! j) = 1
         else vectors ! j = replicate (length (vocab self)) 0) \<and>
        (\<forall>text'. filter (in_vocab self) (tokenize text') =
                   filter (in_vocab self) (tokenize (texts ! j)) \<longrightarrow>
                 encode_text self text' = Inr (vectors ! j)))"
proof -
  define ws where "ws = map fst (doc_freq documents)"
  define g where "g x = l2_normalize (map (\<lambda>w. real (count_list
        (filter (in_vocab self) (tokenize x)) w) * idf_get self w) ws)" for x
  have enc: "encode_text self x = Inr (g x)" for x
    unfolding g_def ws_def self_def by (rule encode_text_fit)
  have lv: "length (vocab self) = length ws"
    by (simp add: self_def ws_def fit_vocab)
  have e: "encode self texts = (self, Inr (map g texts))"
    using map_err_all_ok [where xs = texts and f = "encode_text self" and g = g] enc
    by (simp add: encode_def self_def fit_fitted)
  have len: "length (g x) = length (vocab self)" for x
    by (simp add: g_def l2_normalize_length lv)
  have nrm: "if \<exists>t \<in> set (tokenize x). in_vocab self t
         then l2_norm (g x) = 1
         else g x = replicate (length (vocab self)) 0" for x
  proof -
    let ?toks = "filter (in_vocab self) (tokenize x)"
    let ?u = "map (\<lambda>w. real (count_list ?toks w) * idf_get self w) ws"
    have z: "l2_norm ?u = 0 \<longleftrightarrow> \<not> (\<exists>t \<in> set (tokenize x). in_vocab self t)"
      using weights_norm_zero_iff [of ?toks s documents]
      by (auto simp add: self_def ws_def)
    show ?thesis
    proof (cases "\<exists>t \<in> set (tokenize x). in_vocab self t")
      case True
      with z have "l2_norm ?u \<noteq> 0" by simp
      then have "l2_norm (l2_normalize ?u) = 1" by (rule l2_normalize_unit)
      with True show ?thesis by (simp add: g_def)
    next
      case False
      with z have "l2_norm ?u = 0" by simp
      then have "l2_normalize ?u = replicate (length ?u) 0" by (rule l2_normalize_zero)
      with False lv show ?thesis by (simp add: g_def)
    qed
  qed
  have inv: "filter (in_vocab self) (tokenize y) = filter (in_vocab self) (tokenize x)
      \<Longrightarrow> encode_text self y = Inr (g x)" for x y
    by (simp add: enc g_def)
  show ?thesis
    using e len nrm inv by (intro exI [of _ "map g texts"]) simp
qed

theorem encode_fitted_witness:
  "\<exists>vectors. encode (fit SimpleEmbedder_init [''a b'']) [''a x''] =
       (fit SimpleEmbedder_init [''a b''], Inr vectors) \<and>
     length vectors = 1 \<and> length (vectors ! 0) = 2 \<and> l2_norm (vectors ! 0) = 1 \<and>
     encode_text (fit SimpleEmbedder_init [''a b'']) ''a'' = Inr (vectors ! 0)"
proof -
  let ?self = "fit SimpleEmbedder_init [''a b'']"
  have voc: "vocab ?self = [(''a'', 0), (''b'', 1)]"
    by (simp add: fit_vocab df1)
  have iv: "in_vocab ?self ''a''" "\<not> in_vocab ?self ''x''"
    by (simp_all add: in_vocab_def voc)
  from encode_fitted [of SimpleEmbedder_init "[''a b'']" "[''a x'']"]
  obtain vectors where e: "encode ?self [''a x''] = (?self, Inr vectors)"
    and l: "length vectors = length [''a x'']"
    and p: "\<forall>j<length [''a x''].
        length (vectors ! j) = length (vocab ?self) \<and>
        (if \<exists>t \<in> set (tokenize ([''a x''] ! j)). in_vocab ?self t
         then l2_norm (vectors ! j) = 1
         else vectors ! j = replicate (length (vocab ?self)) 0) \<and>
        (\<forall>text'. filter (in_vocab ?self) (tokenize text') =
                   filter (in_vocab ?self) (tokenize ([''a x''] ! j)) \<longrightarrow>
                 encode_text ?self text' = Inr (vectors ! j))"
    by blast
  from p have p0: "length (vectors ! 0) = length (vocab ?self)"
    "(if \<exists>t \<in> set (tokenize ''a x''). in_vocab ?self t
         then l2_norm (vectors ! 0) = 1
         else vectors ! 0 = replicate (length (vocab ?self)) 0)"
    "filter (in_vocab ?self) (tokenize ''a'') = filter (in_vocab ?self) (tokenize ''a x'') \<longrightarrow>
                 encode_text ?self ''a'' = Inr (vectors ! 0)"
    by simp_all
  from p0(1) have "length (vectors ! 0) = 2" by (simp add: voc)
  moreover from p0(2) have "l2_norm (vectors ! 0) = 1" by (simp add: tok2 iv)
  moreover from p0(3) have "encode_text ?self ''a'' = Inr (vectors ! 0)"
    by (simp add: tok2 tok3 iv)
  ultimately show ?thesis using e l by simp
qed

section \<open>Indexing\<close>

lemma encode_fit_ok:
  "\<exists>vectors. encode (fit s documents) texts = (fit s documents, Inr vectors) \<and>
     length vectors = length texts \<and>
     (\<forall>j<length texts. encode_text (fit s documents) (texts ! j) = Inr (vectors ! j))"
proof -
  define g where "g x = l2_normalize (map (\<lambda>w. real (count_list
        (filter (in_vocab (fit s documents)) (tokenize x)) w) * idf_get (fit s documents) w)
        (map fst (doc_freq documents)))" for x
  have enc: "encode_text (fit s documents) x = Inr (g x)" for x
    unfolding g_def by (rule encode_text_fit)
  have "encode (fit s documents) texts = (fit s documents, Inr (map g texts))"
    using map_err_all_ok [where xs = texts and f = "encode_text (fit s documents)" and g = g] enc
    by (simp add: encode_def fit_fitted)
  with enc show ?thesis by (intro exI [of _ "map g texts"]) simp
qed

lemma store_add_documents_simple:
  assumes "vs_embedder st = SimpleEmb s"
  shows "\<exists>vectors. store_add_documents st documents =
      (\<lparr>vs_embedder = SimpleEmb (fit s (map get_content documents)),
        vs_documents = documents, vs_vectors = Some vectors\<rparr>, Inr ()) \<and>
      length vectors = length documents \<and>
      (\<forall>j<length documents.
         encode_text (fit s (map get_content documents)) (get_content (documents ! j)) =
           Inr (vectors ! j))"
proof -
  from encode_fit_ok [of s "map get_content documents" "map get_content documents"]
  obtain vectors where e: "encode (fit s (map get_content documents)) (map get_content documents)
        = (fit s (map get_content documents), Inr vectors)"
    and l: "length vectors = length documents"
    and v: "\<forall>j<length documents.
         encode_text (fit s (map get_content documents)) (get_content (documents ! j)) =
           Inr (vectors ! j)"
    by auto
  have "store_add_documents st documents =
      (\<lparr>vs_embedder = SimpleEmb (fit s (map get_content documents)),
        vs_documents = documents, vs_vectors = Some vectors\<rparr>, Inr ())"
    using assms e by (cases st) (simp add: store_add_documents_def Let_def)
  with l v show ?thesis by blast
qed

lemma store_add_documents_ok: "snd (store_add_documents st documents) = Inr ()"
proof (cases "vs_embedder st")
  case (SimpleEmb s)
  from store_add_documents_simple [OF this, of documents] show ?thesis by auto
next
  case (SentenceTransformerEmb m)
  then show ?thesis by (simp add: store_add_documents_def Let_def)
qed

lemma add_documents_ok: "snd (add_documents e0 documents) = Inr ()"
  by (simp add: add_documents_def Let_def store_add_documents_ok)

lemma add_documents_index:
  assumes "add_documents e0 documents = (self, r)"
  shows "he_documents self = documents \<and> inverted_index self = Some (build_index documents) \<and>
         semantic_weight self = semantic_weight e0 \<and> keyword_weight self = keyword_weight e0 \<and>
         vector_store self = fst (store_add_documents (vector_store e0) documents)"
  using assms store_add_documents_ok [of "vector_store e0" documents]
  by (auto simp add: add_documents_def Let_def)

section \<open>The keyword index\<close>

subsection \<open>The inverted index\<close>

lemma fold_setdefault_append:
  "distinct ts \<Longrightarrow>
     fold (\<lambda>token index'. setdefault_append token i index') ts index t =
       (if t \<in> set ts then Some ((case index t of None \<Rightarrow> [] | Some l \<Rightarrow> l) @ [i])
        else index t)"
  by (induction ts arbitrary: index) (auto simp add: setdefault_append_def)

lemma posting_snoc:
  "posting (ds @ [d]) t =
     posting ds t @ (if t \<in> set (tokenize (get_content d)) then [length ds] else [])"
proof -
  have "filter (\<lambda>i. t \<in> set (tokenize (get_content ((ds @ [d]) ! i)))) [0..<length ds] =
        filter (\<lambda>i. t \<in> set (tokenize (get_content (ds ! i)))) [0..<length ds]"
    by (rule filter_cong) (simp_all add: nth_append)
  then show ?thesis by (simp add: posting_def)
qed

lemma build_index_snoc:
  "build_index (ds @ [d]) =
     fold (\<lambda>token index'. setdefault_append token (length ds) index')
       (set_iter (tokenize (get_content d))) (build_index ds)"
  by (simp add: build_index_def enumerate_append_eq)

lemma build_index_posting:
  "build_index documents t = (if posting documents t = [] then None else Some (posting documents t))"
proof (induction documents rule: rev_induct)
  case Nil
  show ?case by (simp add: build_index_def posting_def)
next
  case (snoc d ds)
  have dts: "distinct (set_iter (tokenize (get_content d)))" by (simp add: set_iter_def)
  have st: "set (set_iter (tokenize (get_content d))) = set (tokenize (get_content d))"
    by (simp add: set_iter_def)
  show ?case
    by (simp add: build_index_snoc fold_setdefault_append [OF dts] st posting_snoc snoc.IH)
qed

lemma posting_distinct: "distinct (posting documents t)"
  by (simp add: posting_def)

lemma posting_bound: "d \<in> set (posting documents t) \<Longrightarrow> d < length documents"
  by (simp add: posting_def)

lemma posting_length: "length (posting documents t) \<le> length documents"
  using length_filter_le [of _ "[0..<length documents]"] by (simp add: posting_def)

lemma posting_iff:
  "d \<in> set (posting documents t) \<longleftrightarrow>
     d < length documents \<and> t \<in> set (tokenize (get_content (documents ! d)))"
  by (auto simp add: posting_def)

subsection \<open>Accumulation\<close>

lemma fold_err_ok: "(\<And>x s. f x s = Inr (g x s)) \<Longrightarrow> fold_err f xs s = Inr (fold g xs s)"
  by (induction xs arbitrary: s) simp_all

lemma counter_val_counter_add:
  "counter_val (counter_add k v c) d = counter_val c d + (if d = k then v else 0)"
  by (simp add: counter_val_def map_of_counter_add split: option.splits)

lemma counter_val_fold_add:
  "distinct m \<Longrightarrow>
     counter_val (fold (\<lambda>x c. counter_add x w c) m c0) d =
       counter_val c0 d + (if d \<in> set m then w else 0)"
  by (induction m arbitrary: c0) (auto simp add: counter_val_counter_add)

lemma keyword_accumulate_fold:
  assumes "inverted_index self = Some (build_index documents)"
    and "he_documents self = documents"
  shows "keyword_accumulate self toks =
     Inr (fold (\<lambda>t scores.
                  fold (\<lambda>x c. counter_add x
                          (smoothed_idf (length documents) (length (posting documents t))) c)
                    (posting documents t) scores) toks [])"
  unfolding keyword_accumulate_def
  by (rule fold_err_ok) (simp add: assms build_index_posting)

lemma accumulate_keys:
  "fst ` set (fold (\<lambda>t scores. fold (\<lambda>x c. counter_add x (w t) c) (p t) scores) toks c0) =
     fst ` set c0 \<union> {d. \<exists>t \<in> set toks. d \<in> set (p t)}"
  by (induction toks arbitrary: c0) (auto simp add: fold_counter_keys)

lemma accumulate_distinct:
  "distinct (map fst c0) \<Longrightarrow>
   distinct (map fst (fold (\<lambda>t scores. fold (\<lambda>x c. counter_add x (w t) c) (p t) scores) toks c0))"
  by (induction toks arbitrary: c0) (simp_all add: fold_counter_distinct)

lemma accumulate_val:
  "(\<And>t. distinct (p t)) \<Longrightarrow>
   counter_val (fold (\<lambda>t scores. fold (\<lambda>x c. counter_add x (w t) c) (p t) scores) toks c0) d =
     counter_val c0 d + sum_list (map w (filter (\<lambda>t. d \<in> set (p t)) toks))"
  by (induction toks arbitrary: c0) (simp_all add: counter_val_fold_add)

lemma idf_posting_ge_1:
  "1 \<le> smoothed_idf (length documents) (length (posting documents t))"
  by (rule smoothed_idf_ge_1) (rule posting_length)

lemma keyword_raw_spec_ge_1:
  assumes "t \<in> set toks" and "d \<in> set (posting documents t)"
  shows "1 \<le> keyword_raw_spec documents toks d"
proof -
  let ?w = "\<lambda>t. smoothed_idf (length documents) (length (posting documents t))"
  let ?ts = "filter (\<lambda>t. d \<in> set (posting documents t)) toks"
  have ge: "1 \<le> ?w t" for t by (rule idf_posting_ge_1)
  have "real (length xs) \<le> sum_list (map ?w xs)" for xs
  proof (induction xs)
    case Nil
    show ?case by simp
  next
    case (Cons a xs)
    with ge [of a] show ?case by simp
  qed
  from this [of ?ts] have "real (length ?ts) \<le> keyword_raw_spec documents toks d"
    by (simp add: keyword_raw_spec_def)
  moreover from assms have "t \<in> set ?ts" by simp
  then have "?ts \<noteq> []" by (metis empty_iff empty_set)
  then have "1 \<le> real (length ?ts)" by (cases ?ts) simp_all
  ultimately show ?thesis by linarith
qed

lemma keyword_hits_iff:
  "d \<in> set (keyword_hits documents toks) \<longleftrightarrow> (\<exists>t \<in> set toks. d \<in> set (posting documents t))"
  by (auto simp add: keyword_hits_def posting_bound)

lemma keyword_accumulate_indexed:
  assumes "inverted_index self = Some (build_index documents)"
    and "he_documents self = documents"
  shows "\<exists>scores. keyword_accumulate self toks = Inr scores \<and> distinct (map fst scores) \<and>
     fst ` set scores = set (keyword_hits documents toks) \<and>
     (\<forall>(d, v) \<in> set scores. v = keyword_raw_spec documents toks d)"
proof -
  let ?w = "\<lambda>t. smoothed_idf (length documents) (length (posting documents t))"
  let ?sc = "fold (\<lambda>t scores. fold (\<lambda>x c. counter_add x (?w t) c) (posting documents t) scores)
               toks []"
  have r: "keyword_accumulate self toks = Inr ?sc"
    using assms by (rule keyword_accumulate_fold)
  have d: "distinct (map fst ?sc)" by (rule accumulate_distinct) simp
  have k: "fst ` set ?sc = set (keyword_hits documents toks)"
    by (auto simp add: accumulate_keys keyword_hits_iff)
  have v: "v = keyword_raw_spec documents toks x" if "(x, v) \<in> set ?sc" for x v
  proof -
    from that d have "map_of ?sc x = Some v" by simp
    then have "counter_val ?sc x = v" by (simp add: counter_val_def)
    moreover have "counter_val ?sc x = counter_val [] x + keyword_raw_spec documents toks x"
      unfolding keyword_raw_spec_def by (rule accumulate_val) (rule posting_distinct)
    moreover have "counter_val [] x = 0" by (simp add: counter_val_def)
    ultimately show ?thesis by simp
  qed
  from r d k v show ?thesis by blast
qed

subsection \<open>Normalised keyword scores\<close>

lemma py_max_Max: "xs \<noteq> [] \<Longrightarrow> py_max xs = Inr (Max (set xs))"
  by (cases xs) (simp_all add: Max.set_eq_fold [symmetric] del: set_simps)

lemma keyword_search_indexed:
  fixes query :: string
  assumes idx: "inverted_index self = Some (build_index documents)"
    and docs: "he_documents self = documents"
  defines "toks \<equiv> tokenize query"
  defines "hits \<equiv> keyword_hits documents (tokenize query)"
  defines "M \<equiv> Max (set (map (keyword_raw_spec documents (tokenize query))
                             (keyword_hits documents (tokenize query))))"
  shows "\<exists>scores. keyword_search self query = Inr scores \<and> distinct (map fst scores) \<and>
     fst ` set scores = set hits \<and>
     (\<forall>(d, v) \<in> set scores. v = keyword_raw_spec documents toks d / M) \<and>
     (hits \<noteq> [] \<longrightarrow> 0 < M \<and> (\<exists>d \<in> set hits. keyword_raw_spec documents toks d = M) \<and>
        (\<forall>d \<in> set hits. 1 \<le> keyword_raw_spec documents toks d \<and>
                          keyword_raw_spec documents toks d \<le> M))"
proof -
  let ?raw = "keyword_raw_spec documents toks"
  from keyword_accumulate_indexed [OF idx docs, of toks]
  obtain acc where a: "keyword_accumulate self toks = Inr acc"
    and d: "distinct (map fst acc)"
    and k: "fst ` set acc = set hits"
    and v: "\<forall>(x, y) \<in> set acc. y = ?raw x"
    unfolding hits_def toks_def by blast
  have vals: "set (map snd acc) = ?raw ` set hits"
  proof -
    have "snd p = ?raw (fst p)" if "p \<in> set acc" for p
      using v that by (cases p) auto
    then have "snd ` set acc = (\<lambda>p. ?raw (fst p)) ` set acc" by (simp cong: image_cong)
    also have "\<dots> = ?raw ` (fst ` set acc)" by (simp add: image_image)
    finally show ?thesis by (simp add: k)
  qed
  have Mdef: "M = Max (?raw ` set hits)" by (simp add: M_def toks_def hits_def)
  have ge1: "1 \<le> ?raw x" if "x \<in> set hits" for x
  proof -
    from that obtain t where "t \<in> set toks" "x \<in> set (posting documents t)"
      by (auto simp add: hits_def toks_def keyword_hits_iff)
    then show ?thesis by (rule keyword_raw_spec_ge_1)
  qed
  have facts: "0 < M \<and> (\<exists>x \<in> set hits. ?raw x = M) \<and> (\<forall>x \<in> set hits. 1 \<le> ?raw x \<and> ?raw x \<le> M)"
    if ne: "hits \<noteq> []"
  proof -
    have fin: "finite (?raw ` set hits)" by simp
    from ne have nonempty: "?raw ` set hits \<noteq> {}" by simp
    from Max_in [OF fin nonempty] have "M \<in> ?raw ` set hits" by (simp add: Mdef)
    then obtain x where x: "x \<in> set hits" "?raw x = M" by auto
    have le: "?raw y \<le> M" if "y \<in> set hits" for y
      using that by (simp add: Mdef)
    from x ge1 [of x] have "0 < M" by simp
    with x le ge1 show ?thesis by blast
  qed
  show ?thesis
  proof (cases "acc = []")
    case True
    with k have "hits = []" by simp
    with a True show ?thesis by (simp add: keyword_search_def toks_def)
  next
    case False
    with k have ne: "hits \<noteq> []" by auto
    from facts [OF ne] have Mpos: "0 < M" by simp
    let ?res = "map (\<lambda>(x, y). (x, y / M)) acc"
    have pm: "py_max (map snd acc) = Inr M"
      using False by (simp add: py_max_Max vals Mdef del: set_map)
    have me: "map_err (\<lambda>(x, y). case py_truediv y M of Inl e \<Rightarrow> Inl e | Inr q \<Rightarrow> Inr (x, q)) acc
                = Inr ?res"
      by (rule map_err_all_ok) (use Mpos in \<open>auto simp add: py_truediv_def\<close>)
    have r: "keyword_search self query = Inr ?res"
      using a False pm me by (simp add: keyword_search_def toks_def)
    have "map fst ?res = map fst acc" by (simp add: comp_def case_prod_unfold)
    then have d': "distinct (map fst ?res)" and k': "fst ` set ?res = set hits"
      using d k by (simp_all only: set_map [symmetric])
    have v': "\<forall>(x, y) \<in> set ?res. y = ?raw x / M"
      using v by auto
    from r d' k' v' facts show ?thesis by blast
  qed
qed

lemma map_of_keyword_scores:
  assumes d: "distinct (map fst scores)"
    and k: "fst ` set scores = set hits"
    and v: "\<forall>(x, y) \<in> set scores. y = f x"
  shows "map_of scores = (\<lambda>x. if x \<in> set hits then Some (f x) else None)"
proof
  fix x
  show "map_of scores x = (if x \<in> set hits then Some (f x) else None)"
  proof (cases "x \<in> set hits")
    case True
    with k obtain y where xy: "(x, y) \<in> set scores" by force
    with v have "y = f x" by auto
    with xy d True show ?thesis by simp
  next
    case False
    with k have "x \<notin> fst ` set scores" by simp
    then have "map_of scores x = None" by (simp add: map_of_eq_None_iff)
    with False show ?thesis by simp
  qed
qed


lemma tok_b_c: "tokenize ''b c'' = [''b'', ''c'']" by code_simp

lemma upt_0_2: "[0..<2] = [0, Suc 0]" by code_simp

lemma example_length: "length example_docs = 2"
  by (simp add: example_docs_def)

lemma example_content:
  "get_content (example_docs ! 0) = ''a b''" "get_content (example_docs ! Suc 0) = ''b c''"
  by (simp_all add: example_docs_def get_content_def)

lemma example_posting:
  "posting example_docs ''a'' = [0]" "posting example_docs ''b'' = [0, Suc 0]"
  by (simp_all add: posting_def example_length upt_0_2 example_content tok1 tok_b_c)

lemma example_hits: "keyword_hits example_docs [''a'', ''b''] = [0, Suc 0]"
  by (simp add: keyword_hits_def example_posting example_length upt_0_2)

lemma idf_2_1_pos: "0 < ln (3 / 2 :: real)"
  by simp

lemma example_raw:
  "keyword_raw_spec example_docs [''a'', ''b''] 0 = ln (3 / 2) + 2"
  "keyword_raw_spec example_docs [''a'', ''b''] (Suc 0) = 1"
  by (simp_all add: keyword_raw_spec_def example_posting smoothed_idf_def example_length)

lemma example_add_documents:
  "add_documents e0 example_docs = (fst (add_documents e0 example_docs), Inr ())"
  using add_documents_ok [of e0 example_docs] by (simp add: prod_eq_iff)


text \<open>
  Claim C5. On an engine indexed over \<open>documents\<close>, \<open>_keyword_search\<close> never raises.
  The inverted index maps every token to its posting list. The result has one entry for
  each document hit by a query token; its value is the accumulated weight of the document
  (each occurrence of a query token in the index adds \<open>ln((N+1)/(posting_count+1)) + 1\<close>
  to every document of the token's posting list) divided by the largest accumulated
  weight, as \<open>keyword_score_spec\<close> states. Every value lies in \<open>[0, 1]\<close>, and when no
  query token is in the index the result is empty.
\<close>

theorem keyword_search_scores:
  assumes "add_documents e0 documents = (self, Inr ())"
  shows "\<exists>scores index. keyword_search self query = Inr scores \<and>
     inverted_index self = Some index \<and>
     (\<forall>t. index t = (if posting documents t = [] then None else Some (posting documents t))) \<and>
     distinct (map fst scores) \<and>
     map_of scores = keyword_score_spec documents query \<and>
     (\<forall>(d, v) \<in> set scores. 0 \<le> v \<and> v \<le> 1) \<and>
     ((\<forall>t \<in> set (tokenize query). index t = None) \<longrightarrow> scores = [])"
proof -
  let ?toks = "tokenize query"
  let ?hits = "keyword_hits documents ?toks"
  let ?raw = "keyword_raw_spec documents ?toks"
  let ?M = "Max (set (map ?raw ?hits))"
  from add_documents_index [OF assms]
  have idx: "inverted_index self = Some (build_index documents)"
    and docs: "he_documents self = documents" by simp_all
  from keyword_search_indexed [OF idx docs, of query]
  obtain scores where r: "keyword_search self query = Inr scores"
    and d: "distinct (map fst scores)"
    and k: "fst ` set scores = set ?hits"
    and v: "\<forall>(x, y) \<in> set scores. y = ?raw x / ?M"
    and f: "?hits \<noteq> [] \<longrightarrow> 0 < ?M \<and> (\<exists>x \<in> set ?hits. ?raw x = ?M) \<and>
        (\<forall>x \<in> set ?hits. 1 \<le> ?raw x \<and> ?raw x \<le> ?M)"
    by blast
  have m: "map_of scores = keyword_score_spec documents query"
    unfolding keyword_score_spec_def Let_def
    using d k v by (rule map_of_keyword_scores)
  have b: "0 \<le> y \<and> y \<le> 1" if "(x, y) \<in> set scores" for x y
  proof -
    from that k have xh: "x \<in> set ?hits" by force
    then have "?hits \<noteq> []" by auto
    with f xh have "0 < ?M" "1 \<le> ?raw x" "?raw x \<le> ?M" by simp_all
    moreover from v that have "y = ?raw x / ?M" by auto
    ultimately show ?thesis by simp
  qed
  have e: "scores = []" if "\<forall>t \<in> set ?toks. build_index documents t = None"
  proof -
    from that have "\<forall>t \<in> set ?toks. posting documents t = []"
      by (simp add: build_index_posting split: if_splits)
    then have "\<forall>x. x \<notin> set ?hits" by (simp add: keyword_hits_iff)
    with k have "set scores = {}" by (metis all_not_in_conv image_is_empty)
    then show ?thesis by simp
  qed
  from r idx d m b e show ?thesis
    by (intro exI [of _ scores] exI [of _ "build_index documents"])
       (auto simp add: build_index_posting)
qed


theorem keyword_search_scores_witness:
  "\<exists>scores. keyword_search (fst (create_rag_engine example_docs 0.7)) ''a b'' = Inr scores \<and>
     map_of scores 0 = Some 1 \<and> map_of scores 1 = Some (1 / (ln (3 / 2) + 2)) \<and>
     map_of scores 2 = None"
proof -
  let ?e = "fst (create_rag_engine example_docs 0.7)"
  have h: "add_documents (HybridSearchEngine_init 0.7) example_docs = (?e, Inr ())"
    unfolding create_rag_engine_def by (rule example_add_documents)
  from keyword_search_scores [OF h, of "''a b''"]
  obtain scores where r: "keyword_search ?e ''a b'' = Inr scores"
    and m: "map_of scores = keyword_score_spec example_docs ''a b''"
    by blast
  have le: "(1 :: real) \<le> ln (3 / 2) + 2"
    using idf_2_1_pos by linarith
  have mx: "max (ln (3 / 2) + 2) (1 :: real) = ln (3 / 2) + 2"
    by (rule max.absorb1) (rule le)
  have nz: "ln (3 / 2) + 2 \<noteq> (0 :: real)"
    using idf_2_1_pos by linarith
  have "keyword_score_spec example_docs ''a b'' 0 = Some 1"
    "keyword_score_spec example_docs ''a b'' 1 = Some (1 / (ln (3 / 2) + 2))"
    "keyword_score_spec example_docs ''a b'' 2 = None"
    by (simp_all add: keyword_score_spec_def Let_def tok1 example_hits example_raw mx nz)
  with r m show ?thesis by simp
qed


lemma keyword_search_indexed_keys:
  assumes "inverted_index self = Some (build_index documents)"
    and "he_documents self = documents"
  shows "\<exists>scores. keyword_search self query = Inr scores \<and>
     fst ` set scores = set (keyword_hits documents (tokenize query))"
  using keyword_search_indexed [OF assms, of query] by blast

text \<open>
  Claim C10. On an engine indexed over \<open>documents\<close>, when \<open>_keyword_search\<close> returns
  a nonempty mapping, every value is strictly positive and the largest value is exactly 1.
\<close>

theorem keyword_search_max_one:
  assumes "add_documents e0 documents = (self, Inr ())"
    and "keyword_search self query = Inr scores"
    and "scores \<noteq> []"
  shows "(\<forall>(d, v) \<in> set scores. 0 < v) \<and> Max (snd ` set scores) = 1"
proof -
  let ?toks = "tokenize query"
  let ?hits = "keyword_hits documents ?toks"
  let ?raw = "keyword_raw_spec documents ?toks"
  let ?M = "Max (set (map ?raw ?hits))"
  from add_documents_index [OF assms(1)]
  have idx: "inverted_index self = Some (build_index documents)"
    and docs: "he_documents self = documents" by simp_all
  from keyword_search_indexed [OF idx docs, of query] assms(2)
  have k: "fst ` set scores = set ?hits"
    and v: "\<forall>(x, y) \<in> set scores. y = ?raw x / ?M"
    and f: "?hits \<noteq> [] \<longrightarrow> 0 < ?M \<and> (\<exists>x \<in> set ?hits. ?raw x = ?M) \<and>
        (\<forall>x \<in> set ?hits. 1 \<le> ?raw x \<and> ?raw x \<le> ?M)"
    by auto
  from assms(3) k have ne: "?hits \<noteq> []" by auto
  with f have Mpos: "0 < ?M" and ex: "\<exists>x \<in> set ?hits. ?raw x = ?M"
    and bd: "\<forall>x \<in> set ?hits. 1 \<le> ?raw x \<and> ?raw x \<le> ?M" by simp_all
  have pos: "0 < y" and le: "y \<le> 1" if "(x, y) \<in> set scores" for x y
  proof -
    from that k have xh: "x \<in> set ?hits" by force
    with bd have "1 \<le> ?raw x" "?raw x \<le> ?M" by simp_all
    moreover from v that have "y = ?raw x / ?M" by auto
    ultimately show "0 < y" "y \<le> 1" using Mpos by simp_all
  qed
  have one: "1 \<in> snd ` set scores"
  proof -
    from ex obtain x where x: "x \<in> set ?hits" "?raw x = ?M" by blast
    with k obtain y where xy: "(x, y) \<in> set scores" by force
    with v have "y = ?raw x / ?M" by auto
    with x Mpos have "y = 1" by simp
    with xy show ?thesis by force
  qed
  have "Max (snd ` set scores) = 1"
  proof (rule Max_eqI)
    show "finite (snd ` set scores)" by simp
    show "1 \<in> snd ` set scores" by (rule one)
    fix y assume "y \<in> snd ` set scores"
    then show "y \<le> 1" using le by auto
  qed
  with pos show ?thesis by auto
qed

theorem keyword_search_max_one_witness:
  "\<exists>scores. keyword_search (fst (create_rag_engine example_docs 0.7)) ''a b'' = Inr scores \<and>
     scores \<noteq> [] \<and> Max (snd ` set scores) = 1"
proof -
  let ?e = "fst (create_rag_engine example_docs 0.7)"
  have h: "add_documents (HybridSearchEngine_init 0.7) example_docs = (?e, Inr ())"
    unfolding create_rag_engine_def by (rule example_add_documents)
  from add_documents_index [OF h]
  have idx: "inverted_index ?e = Some (build_index example_docs)"
    and docs: "he_documents ?e = example_docs" by simp_all
  from keyword_search_indexed_keys [OF idx docs, of "''a b''"]
  obtain scores where r: "keyword_search ?e ''a b'' = Inr scores"
    and k: "fst ` set scores = set (keyword_hits example_docs (tokenize ''a b''))"
    by (elim exE conjE)
  have "keyword_hits example_docs (tokenize ''a b'') = [0, Suc 0]"
    by (simp only: tok1 example_hits)
  then have "0 \<in> set (keyword_hits example_docs (tokenize ''a b''))" by simp
  then have "0 \<in> fst ` set scores" by (simp only: k)
  then have ne: "scores \<noteq> []" by (cases scores) simp_all
  from keyword_search_max_one [OF h r ne] have "Max (snd ` set scores) = 1" by (rule conjunct2)
  with r ne show ?thesis by (intro exI [of _ scores] conjI)
qed

section \<open>Searching before indexing\<close>

lemma encode_query_ok:
  assumes "\<not> fitted s \<or> (\<exists>s0 docs. s = fit s0 docs)"
  shows "\<exists>s' v. encode s [q] = (s', Inr [v]) \<and> (\<exists>s0 docs. s' = fit s0 docs)"
proof (cases "fitted s")
  case False
  from encode_fit_ok [of s "[q]" "[q]"]
  obtain vectors where "encode (fit s [q]) [q] = (fit s [q], Inr vectors)"
    and "length vectors = length [q]" by blast
  then obtain v where "snd (encode (fit s [q]) [q]) = Inr [v]"
    by (cases vectors) simp_all
  then have "snd (encode s [q]) = Inr [v]" using False
    by (simp add: encode_def Let_def fit_fitted)
  moreover have "fst (encode s [q]) = fit s [q]" using False by (simp add: encode_def Let_def)
  ultimately show ?thesis by (metis prod.collapse)
next
  case True
  with assms obtain s0 docs where s: "s = fit s0 docs" by blast
  from encode_fit_ok [of s0 docs "[q]"]
  obtain vectors where "encode s [q] = (s, Inr vectors)"
    and "length vectors = length [q]" unfolding s by blast
  then obtain v where "encode s [q] = (s, Inr [v])"
    by (cases vectors) simp_all
  with s show ?thesis by blast
qed

lemma search_unindexed:
  assumes v: "vs_vectors (vector_store e) = None"
    and emb: "vs_embedder (vector_store e) = SimpleEmb s"
    and ok: "\<not> fitted s \<or> (\<exists>s0 docs. s = fit s0 docs)"
  shows "snd (search e query top_k) = Inl AttributeError \<and>
     vs_vectors (vector_store (fst (search e query top_k))) = None \<and>
     (\<exists>s'. vs_embedder (vector_store (fst (search e query top_k))) = SimpleEmb s' \<and>
            (\<exists>s0 docs. s' = fit s0 docs))"
proof -
  from encode_query_ok [OF ok, of query]
  obtain s' x where e: "encode s [query] = (s', Inr [x])" and s': "\<exists>s0 docs. s' = fit s0 docs"
    by blast
  have st: "store_search (vector_store e) query (top_k * 2) =
      ((vector_store e)\<lparr>vs_embedder := SimpleEmb s'\<rparr>, Inl AttributeError)"
    using v emb e
    by (simp add: store_search_def Let_def py_index_def brute_force_search_def)
  then show ?thesis using v s' by (simp add: search_def search_merged_def Let_def)
qed

lemma search_all_unindexed:
  assumes "vs_vectors (vector_store e) = None"
    and "vs_embedder (vector_store e) = SimpleEmb s"
    and "\<not> fitted s \<or> (\<exists>s0 docs. s = fit s0 docs)"
  shows "vs_vectors (vector_store (search_all e qs)) = None \<and>
     (\<exists>s'. vs_embedder (vector_store (search_all e qs)) = SimpleEmb s' \<and>
            (\<not> fitted s' \<or> (\<exists>s0 docs. s' = fit s0 docs)))"
  using assms
proof (induction qs arbitrary: e s)
  case Nil
  then show ?case by (simp add: search_all_def)
next
  case (Cons q qs)
  obtain query top_k where q: "q = (query, top_k)" by (cases q)
  from search_unindexed [OF Cons.prems, of query top_k]
  obtain s' where a: "vs_vectors (vector_store (fst (search e query top_k))) = None"
    and b: "vs_embedder (vector_store (fst (search e query top_k))) = SimpleEmb s'"
    and c: "\<exists>s0 docs. s' = fit s0 docs" by blast
  from c have c': "\<not> fitted s' \<or> (\<exists>s0 docs. s' = fit s0 docs)" by simp
  from Cons.IH [OF a b c'] show ?case by (simp add: search_all_def q)
qed

lemma init_unindexed:
  "vs_vectors (vector_store (HybridSearchEngine_init w)) = None"
  "vs_embedder (vector_store (HybridSearchEngine_init w)) = SimpleEmb SimpleEmbedder_init"
  "\<not> fitted SimpleEmbedder_init"
  by (simp_all add: HybridSearchEngine_init_def FAISSVectorStore_init_def get_embedder_simple_def
      SimpleEmbedder_init_def)

text \<open>
  Claim C2, as stated, fails: a freshly constructed engine raises \<open>AttributeError\<close>
  (the store has no attribute \<open>_vectors\<close> yet), not \<open>IndexNotBuilt\<close>.
\<close>

theorem search_before_index_counterexample:
  "snd (search (HybridSearchEngine_init (7 / 10)) ''returns'' 5) = Inl AttributeError \<and>
   snd (search (HybridSearchEngine_init (7 / 10)) ''returns'' 5) \<noteq> Inl IndexNotBuilt"
  using search_unindexed [OF init_unindexed(1) init_unindexed(2), of "7 / 10" "''returns''" 5]
    init_unindexed(3)
  by simp

text \<open>
  Claim C2, amended. On an engine that was constructed and then only searched, every call
  of \<open>search\<close> raises \<open>AttributeError\<close>; it never returns a result.
\<close>

theorem search_before_index_fails:
  "snd (search (search_all (HybridSearchEngine_init w) qs) query top_k) = Inl AttributeError"
proof -
  from search_all_unindexed [OF init_unindexed(1) init_unindexed(2), of w qs] init_unindexed(3)
  obtain s' where a: "vs_vectors (vector_store (search_all (HybridSearchEngine_init w) qs)) = None"
    and b: "vs_embedder (vector_store (search_all (HybridSearchEngine_init w) qs)) = SimpleEmb s'"
    and c: "\<not> fitted s' \<or> (\<exists>s0 docs. s' = fit s0 docs)" by blast
  from search_unindexed [OF a b c, of query top_k] show ?thesis by simp
qed

section \<open>Indexing an empty corpus\<close>

lemma py_slice_to_Nil: "py_slice_to [] k = []"
  by (simp add: py_slice_to_def)

lemma fit_Nil: "fit s [] = s\<lparr>vocab := [], idf := [], fitted := True\<rparr>"
  by (simp add: fit_def doc_freq_def)

lemma keyword_search_empty_corpus:
  assumes "inverted_index self = Some (build_index [])" and "he_documents self = []"
  shows "keyword_search self query = Inr []"
proof -
  from keyword_search_indexed_keys [OF assms, of query]
  obtain scores where r: "keyword_search self query = Inr scores"
    and k: "fst ` set scores = set (keyword_hits [] (tokenize query))" by (elim exE conjE)
  have "keyword_hits [] (tokenize query) = []" by (simp add: keyword_hits_def)
  with k have "set scores = {}" by simp
  with r show ?thesis by simp
qed

lemma build_index_Nil: "build_index [] = Map.empty"
  by (simp add: build_index_def)

text \<open>
  Claim C6, as stated, fails: \<open>add_documents([])\<close> on a new engine returns normally.
\<close>

theorem add_documents_empty_counterexample:
  "snd (add_documents (HybridSearchEngine_init (7 / 10)) []) = Inr () \<and>
   snd (add_documents (HybridSearchEngine_init (7 / 10)) []) \<noteq> Inl EmptyCorpus"
  by (simp add: add_documents_ok)

text \<open>
  Claim C6, amended. On an engine with the frequency embedder, \<open>add_documents([])\<close>
  raises nothing and leaves an index without documents, vectors, vocabulary or postings;
  every later \<open>search\<close> returns the empty list.
\<close>

theorem add_documents_empty:
  assumes "vs_embedder (vector_store e0) = SimpleEmb s"
  shows "\<exists>self. add_documents e0 [] = (self, Inr ()) \<and>
     he_documents self = [] \<and>
     vs_documents (vector_store self) = [] \<and>
     vs_vectors (vector_store self) = Some [] \<and>
     vs_embedder (vector_store self) = SimpleEmb (s\<lparr>vocab := [], idf := [], fitted := True\<rparr>) \<and>
     inverted_index self = Some Map.empty \<and>
     snd (search self query top_k) = Inr []"
proof -
  define self where "self = fst (add_documents e0 [])"
  have a: "add_documents e0 [] = (self, Inr ())"
    using add_documents_ok [of e0 "[]"] by (simp add: self_def prod_eq_iff)
  from add_documents_index [OF a]
  have docs: "he_documents self = []"
    and idx: "inverted_index self = Some (build_index [])"
    and vs: "vector_store self = fst (store_add_documents (vector_store e0) [])"
    by simp_all
  from store_add_documents_simple [OF assms, of "[]"]
  have vs': "vector_store self =
      \<lparr>vs_embedder = SimpleEmb (fit s []), vs_documents = [], vs_vectors = Some []\<rparr>"
    by (auto simp add: vs)
  from encode_fit_ok [of s "[]" "[query]"]
  obtain vectors where e: "encode (fit s []) [query] = (fit s [], Inr vectors)"
    and l: "length vectors = length [query]" by blast
  from l obtain x where x: "vectors = [x]" by (cases vectors) simp_all
  have st: "snd (store_search (vector_store self) query (top_k * 2)) = Inr []"
    using e x
    by (simp add: vs' store_search_def Let_def py_index_def brute_force_search_def
        ranked_positions_def sort_desc_def py_slice_to_Nil)
  have ve: "vector_store (self\<lparr>vector_store := fst (store_search (vector_store self) query (top_k * 2))\<rparr>)
      = fst (store_search (vector_store self) query (top_k * 2))" by simp
  have kw: "keyword_search (self\<lparr>vector_store := vs''\<rparr>) query = Inr []" for vs''
    by (rule keyword_search_empty_corpus) (simp_all add: idx docs)
  have s: "snd (search self query top_k) = Inr []"
    using st kw
    by (simp add: search_def search_merged_def Let_def merge_semantic_def merge_keyword_def rank_merged_def
        sort_desc_def py_slice_to_Nil)
  from a docs idx vs' s show ?thesis
    by (intro exI [of _ self]) (simp add: fit_Nil build_index_Nil)
qed

theorem add_documents_empty_witness:
  "\<exists>self. add_documents (HybridSearchEngine_init (7 / 10)) [] = (self, Inr ()) \<and>
     he_documents self = [] \<and> inverted_index self = Some Map.empty \<and>
     snd (search self ''returns'' 5) = Inr []"
  using add_documents_empty [OF init_unindexed(2), of "7 / 10" "''returns''" 5]
  by (elim exE conjE) (intro exI conjI)

section \<open>Vector dimensions\<close>

lemma encode_text_fit_length:
  "encode_text (fit s documents) x = Inr v \<Longrightarrow> length v = length (vocab (fit s documents))"
  by (auto simp add: encode_text_fit l2_normalize_length fit_vocab)

lemma example_doc_freq:
  "doc_freq (map get_content example_docs) = [(''a'', 1), (''b'', 2), (''c'', 1)]"
  by code_simp

text \<open>
  Claim C7, as stated, fails: the store keeps the vectors its embedder returns without
  comparing their lengths, here a 5-dimensional and a 4-dimensional one.
\<close>

theorem store_ragged_counterexample:
  "snd (store_add_documents ragged_store example_docs) = Inr () \<and>
   vs_vectors (fst (store_add_documents ragged_store example_docs)) =
     Some [[1, 0, 0, 0, 0], [1, 0, 0, 0]]"
  by (simp add: store_add_documents_def ragged_store_def FAISSVectorStore_init_def Let_def)

text \<open>
  Claim C7, amended. With the frequency embedder \<open>add_documents\<close> raises nothing and
  stores one vector per document, all of the length of the vocabulary, and every later
  query vector has that length too.
\<close>

theorem store_vectors_same_dimension:
  assumes "vs_embedder st = SimpleEmb s"
  shows "\<exists>st' s' vectors. store_add_documents st documents = (st', Inr ()) \<and>
     vs_embedder st' = SimpleEmb s' \<and> vs_vectors st' = Some vectors \<and>
     length vectors = length documents \<and>
     (\<forall>v \<in> set vectors. length v = length (vocab s')) \<and>
     (\<forall>query. \<exists>qv. embedder_encode (vs_embedder st') [query] = (vs_embedder st', Inr [qv]) \<and>
                     length qv = length (vocab s'))"
proof -
  let ?s' = "fit s (map get_content documents)"
  from store_add_documents_simple [OF assms, of documents]
  obtain vectors where a: "store_add_documents st documents =
      (\<lparr>vs_embedder = SimpleEmb ?s', vs_documents = documents, vs_vectors = Some vectors\<rparr>, Inr ())"
    and l: "length vectors = length documents"
    and v: "\<forall>j<length documents. encode_text ?s' (get_content (documents ! j)) = Inr (vectors ! j)"
    by blast
  have dim: "length x = length (vocab ?s')" if "x \<in> set vectors" for x
  proof -
    from that obtain j where "j < length vectors" "vectors ! j = x"
      by (auto simp add: in_set_conv_nth)
    with v l have "encode_text ?s' (get_content (documents ! j)) = Inr x" by simp
    then show ?thesis by (rule encode_text_fit_length)
  qed
  have q: "\<exists>qv. embedder_encode (SimpleEmb ?s') [query] = (SimpleEmb ?s', Inr [qv]) \<and>
                     length qv = length (vocab ?s')" for query
  proof -
    from encode_fit_ok [of s "map get_content documents" "[query]"]
    obtain qs where e: "encode ?s' [query] = (?s', Inr qs)" and lq: "length qs = length [query]"
      and eq: "\<forall>j<length [query]. encode_text ?s' ([query] ! j) = Inr (qs ! j)" by blast
    from lq obtain qv where qs: "qs = [qv]" by (cases qs) simp_all
    with eq have "encode_text ?s' query = Inr qv" by simp
    then have "length qv = length (vocab ?s')" by (rule encode_text_fit_length)
    with e qs show ?thesis by simp
  qed
  from a l dim q show ?thesis by simp
qed

theorem store_vectors_same_dimension_witness:
  "\<exists>st' vectors. store_add_documents (FAISSVectorStore_init None) example_docs = (st', Inr ()) \<and>
     vs_vectors st' = Some vectors \<and> length vectors = 2 \<and>
     length (vectors ! 0) = 3 \<and> length (vectors ! 1) = 3"
proof -
  have emb: "vs_embedder (FAISSVectorStore_init None) = SimpleEmb SimpleEmbedder_init"
    by (simp add: FAISSVectorStore_init_def get_embedder_simple_def)
  from store_vectors_same_dimension [OF emb, of example_docs]
  obtain st' s' vectors where a: "store_add_documents (FAISSVectorStore_init None) example_docs = (st', Inr ())"
    and b: "vs_embedder st' = SimpleEmb s'" and c: "vs_vectors st' = Some vectors"
    and l: "length vectors = length example_docs"
    and d: "\<forall>v \<in> set vectors. length v = length (vocab s')"
    by (elim exE conjE)
  from store_add_documents_simple [OF emb, of example_docs] a b
  have "s' = fit SimpleEmbedder_init (map get_content example_docs)" by auto
  then have lv: "length (vocab s') = 3" by (simp add: fit_vocab example_doc_freq)
  from l have l2: "length vectors = 2" by (simp add: example_length)
  then have "vectors ! 0 \<in> set vectors" "vectors ! 1 \<in> set vectors" by simp_all
  with d lv have "length (vectors ! 0) = 3" "length (vectors ! 1) = 3" by simp_all
  with a c l2 show ?thesis by (intro exI [of _ st'] exI [of _ vectors] conjI)
qed

section \<open>Searching an indexed engine\<close>

subsection \<open>The vector search\<close>

lemma map_snd_scored_enumerate:
  "map snd (map (\<lambda>(i, doc_vec). (f doc_vec, i)) (enumerate n vectors)) = [n..<n + length vectors]"
  by (induction vectors arbitrary: n) (simp_all add: upt_rec)

lemma ranked_positions_set_snd:
  "snd ` set (ranked_positions vectors qv) = {0..<length vectors}"
proof -
  have "set (ranked_positions vectors qv) =
          set (map (\<lambda>(i, doc_vec). (dot qv doc_vec, i)) (enumerate 0 vectors))"
    by (simp add: ranked_positions_def sort_desc_def)
  then have "snd ` set (ranked_positions vectors qv) =
          set (map snd (map (\<lambda>(i, doc_vec). (dot qv doc_vec, i)) (enumerate 0 vectors)))"
    by (simp only: set_map)
  then show ?thesis by (simp only: map_snd_scored_enumerate) simp
qed

lemma ranked_positions_length: "length (ranked_positions vectors qv) = length vectors"
  by (simp add: ranked_positions_def sort_desc_def)

lemma ranked_positions_distinct: "distinct (map snd (ranked_positions vectors qv))"
proof -
  let ?orig = "map (\<lambda>(i, doc_vec). (dot qv doc_vec, i)) (enumerate 0 vectors)"
  have "distinct (map snd ?orig)" by (simp only: map_snd_scored_enumerate) simp
  then have d: "distinct ?orig" and i: "inj_on snd (set ?orig)"
    by (simp_all only: distinct_map)
  have "distinct (sort_key (\<lambda>x. - fst x) ?orig)" using d by (simp only: distinct_sort)
  moreover have "set (sort_key (\<lambda>x. - fst x) ?orig) = set ?orig" by (simp only: set_sort)
  ultimately have "distinct (map snd (sort_key (\<lambda>x. - fst x) ?orig))"
    using i by (simp only: distinct_map)
  then show ?thesis by (simp only: ranked_positions_def sort_desc_def)
qed

lemma ranked_positions_score:
  assumes "(score, idx) \<in> set (ranked_positions vectors qv)"
  shows "idx < length vectors \<and> score = dot qv (vectors ! idx)"
proof -
  from assms have "(score, idx) \<in> set (map (\<lambda>(i, doc_vec). (dot qv doc_vec, i)) (enumerate 0 vectors))"
    by (simp add: ranked_positions_def sort_desc_def)
  then obtain i dv where "(i, dv) \<in> set (enumerate 0 vectors)" "score = dot qv dv" "idx = i"
    by auto
  then show ?thesis by (auto simp add: in_set_enumerate_eq)
qed

lemma ranked_positions_sorted:
  "sorted (map (\<lambda>x. - fst x) (ranked_positions vectors qv))"
  by (simp add: ranked_positions_def sort_desc_def)

lemma set_py_slice_to: "set (py_slice_to xs k) \<subseteq> set xs"
  by (auto simp add: py_slice_to_def dest: in_set_takeD)

lemma fold_err_ok_on:
  "(\<And>x s. x \<in> set xs \<Longrightarrow> f x s = Inr (g x s)) \<Longrightarrow> fold_err f xs s = Inr (fold g xs s)"
  by (induction xs arbitrary: s) simp_all

lemma map_err_ok_on:
  "(\<And>x. x \<in> set xs \<Longrightarrow> f x = Inr (g x)) \<Longrightarrow> map_err f xs = Inr (map g xs)"
  by (induction xs) simp_all

lemma brute_force_search_indexed:
  assumes "vs_vectors st = Some vectors" and "vs_documents st = documents"
    and "length vectors = length documents"
  shows "brute_force_search st qv top_k = Inr (semantic_results documents vectors qv top_k)"
proof -
  have "map_err
            (\<lambda>(score, idx).
               case py_index documents idx of
                 Inl e \<Rightarrow> Inl e
               | Inr d \<Rightarrow> Inr \<lparr>document = d, relevance_score = round4 score\<rparr>)
            (py_slice_to (ranked_positions vectors qv) top_k) =
        Inr (map (\<lambda>(score, idx). \<lparr>document = documents ! idx, relevance_score = round4 score\<rparr>)
            (py_slice_to (ranked_positions vectors qv) top_k))"
  proof (rule map_err_ok_on)
    fix x assume x: "x \<in> set (py_slice_to (ranked_positions vectors qv) top_k)"
    obtain score idx where p: "x = (score, idx)" by (cases x)
    from x have "x \<in> set (ranked_positions vectors qv)" by (rule subsetD [OF set_py_slice_to])
    with p have "idx < length vectors" using ranked_positions_score by blast
    with assms(3) have "idx < length documents" by simp
    then show "(case x of (score, idx) \<Rightarrow>
               case py_index documents idx of
                 Inl e \<Rightarrow> Inl e
               | Inr d \<Rightarrow> Inr \<lparr>document = d, relevance_score = round4 score\<rparr>) =
          Inr (case x of (score, idx) \<Rightarrow> \<lparr>document = documents ! idx, relevance_score = round4 score\<rparr>)"
      by (simp add: p py_index_def)
  qed
  then show ?thesis
    unfolding brute_force_search_def semantic_results_def assms(1) assms(2) by simp
qed

lemma store_search_indexed:
  assumes st: "st = \<lparr>vs_embedder = SimpleEmb (fit s texts), vs_documents = documents,
                      vs_vectors = Some vectors\<rparr>"
    and len: "length vectors = length documents"
  shows "\<exists>qv. encode_text (fit s texts) query = Inr qv \<and>
     store_search st query top_k = (st, Inr (semantic_results documents vectors qv top_k))"
proof -
  from encode_fit_ok [of s texts "[query]"]
  obtain qs where e: "encode (fit s texts) [query] = (fit s texts, Inr qs)"
    and lq: "length qs = length [query]"
    and eq: "\<forall>j<length [query]. encode_text (fit s texts) ([query] ! j) = Inr (qs ! j)" by blast
  from lq obtain qv where qs: "qs = [qv]" by (cases qs) simp_all
  with eq have q: "encode_text (fit s texts) query = Inr qv" by simp
  have b: "brute_force_search st qv top_k = Inr (semantic_results documents vectors qv top_k)"
    by (rule brute_force_search_indexed) (simp_all add: st len)
  have "store_search st query top_k = (st, Inr (semantic_results documents vectors qv top_k))"
    using e qs b by (simp add: store_search_def Let_def py_index_def st)
  with q show ?thesis by blast
qed

lemma merge_keyword_fold:
  assumes "\<And>d v. (d, v) \<in> set keyword_scores \<Longrightarrow> d < length documents"
  shows "merge_keyword documents keyword_scores merged0 =
     Inr (fold (merge_keyword_step documents) keyword_scores merged0)"
  unfolding merge_keyword_def
proof (rule fold_err_ok_on)
  fix x :: "nat \<times> real" and m :: "(key \<times> merged_entry) list"
  assume x: "x \<in> set keyword_scores"
  obtain d v where dv: "x = (d, v)" by (cases x)
  with x assms have "d < length documents" by blast
  then show "(case x of (doc_idx, score) \<Rightarrow> \<lambda>merged.
          case py_index documents doc_idx of
            Inl e \<Rightarrow> Inl e
          | Inr d \<Rightarrow>
              (let k = get_id d doc_idx
               in case map_of merged k of
                    Some entry \<Rightarrow> Inr (dict_set k (entry\<lparr>m_keyword_score := score\<rparr>) merged)
                  | None \<Rightarrow>
                      Inr (dict_set k
                             \<lparr>m_document = d, m_semantic_score = 0, m_keyword_score = score\<rparr>
                             merged))) m = Inr (merge_keyword_step documents x m)"
    by (simp add: dv py_index_def merge_keyword_step_def merge_keyed_step_def Let_def
        split: option.splits)
qed

lemma keyword_hits_bound: "d \<in> set (keyword_hits documents toks) \<Longrightarrow> d < length documents"
  by (simp add: keyword_hits_def)

lemma search_indexed:
  assumes add: "add_documents e0 documents = (self, Inr ())"
    and emb: "vs_embedder (vector_store e0) = SimpleEmb s"
  shows "\<exists>vectors qv kws.
     vector_store self = \<lparr>vs_embedder = SimpleEmb (fit s (map get_content documents)),
                          vs_documents = documents, vs_vectors = Some vectors\<rparr> \<and>
     length vectors = length documents \<and>
     (\<forall>j<length documents. encode_text (fit s (map get_content documents))
                               (get_content (documents ! j)) = Inr (vectors ! j)) \<and>
     encode_text (fit s (map get_content documents)) query = Inr qv \<and>
     (\<forall>k. store_search (vector_store self) query k =
            (vector_store self, Inr (semantic_results documents vectors qv k))) \<and>
     keyword_search self query = Inr kws \<and>
     search_merged self query top_k =
       (self, Inr (fold (merge_keyword_step documents) kws
                     (merge_semantic (semantic_results documents vectors qv (top_k * 2))))) \<and>
     search self query top_k =
       (self, Inr (rank_merged (semantic_weight e0) (keyword_weight e0)
                     (fold (merge_keyword_step documents) kws
                        (merge_semantic (semantic_results documents vectors qv (top_k * 2))))
                     top_k))"
proof -
  let ?s' = "fit s (map get_content documents)"
  from add_documents_index [OF add]
  have docs: "he_documents self = documents"
    and idx: "inverted_index self = Some (build_index documents)"
    and sw: "semantic_weight self = semantic_weight e0"
    and kw: "keyword_weight self = keyword_weight e0"
    and vs: "vector_store self = fst (store_add_documents (vector_store e0) documents)"
    by simp_all
  from store_add_documents_simple [OF emb, of documents] vs
  obtain vectors where vs': "vector_store self =
      \<lparr>vs_embedder = SimpleEmb ?s', vs_documents = documents, vs_vectors = Some vectors\<rparr>"
    and len: "length vectors = length documents"
    and enc: "\<forall>j<length documents. encode_text ?s' (get_content (documents ! j)) = Inr (vectors ! j)"
    by auto
  from store_search_indexed [OF vs' len, of query 0]
  obtain qv where q: "encode_text ?s' query = Inr qv" by blast
  have ss: "store_search (vector_store self) query k =
       (vector_store self, Inr (semantic_results documents vectors qv k))" for k
    using store_search_indexed [OF vs' len, of query k] q by auto
  from keyword_search_indexed_keys [OF idx docs, of query]
  obtain kws where k: "keyword_search self query = Inr kws"
    and kk: "fst ` set kws = set (keyword_hits documents (tokenize query))"
    by (elim exE conjE)
  have kb: "d < length documents" if "(d, v) \<in> set kws" for d v
  proof -
    from that have "d \<in> fst ` set kws" by force
    with kk show ?thesis by (simp add: keyword_hits_bound)
  qed
  have same: "self\<lparr>vector_store := vector_store self\<rparr> = self" by simp
  have sm: "search_merged self query top_k =
       (self, Inr (fold (merge_keyword_step documents) kws
                     (merge_semantic (semantic_results documents vectors qv (top_k * 2)))))"
    using ss [of "top_k * 2"] k merge_keyword_fold [of kws documents, OF kb]
    by (simp add: search_merged_def Let_def same docs)
  have "search self query top_k =
       (self, Inr (rank_merged (semantic_weight e0) (keyword_weight e0)
                     (fold (merge_keyword_step documents) kws
                        (merge_semantic (semantic_results documents vectors qv (top_k * 2))))
                     top_k))"
    by (simp add: search_def Let_def sm sw kw)
  with vs' len enc q ss k sm show ?thesis by blast
qed

subsection \<open>Rounding and sorting\<close>

lemma round_half_even_of_int: "round_half_even (of_int n) = n"
  by (simp add: round_half_even_def)

lemma round_half_even_cases:
  "round_half_even y = \<lfloor>y\<rfloor> \<or> round_half_even y = \<lfloor>y\<rfloor> + 1"
  by (simp add: round_half_even_def Let_def)

lemma round_half_even_lower: "y - of_int \<lfloor>y\<rfloor> < 1 / 2 \<Longrightarrow> round_half_even y = \<lfloor>y\<rfloor>"
  by (simp add: round_half_even_def Let_def)

lemma round_half_even_upper: "1 / 2 < y - of_int \<lfloor>y\<rfloor> \<Longrightarrow> round_half_even y = \<lfloor>y\<rfloor> + 1"
  by (simp add: round_half_even_def Let_def)

lemma round_half_even_mono:
  assumes "x \<le> y"
  shows "round_half_even x \<le> round_half_even y"
proof (cases "\<lfloor>x\<rfloor> = \<lfloor>y\<rfloor>")
  case True
  from assms have "x - of_int \<lfloor>x\<rfloor> \<le> y - of_int \<lfloor>x\<rfloor>" by simp
  with True show ?thesis
    by (auto simp add: round_half_even_def Let_def)
next
  case False
  from assms have "\<lfloor>x\<rfloor> \<le> \<lfloor>y\<rfloor>" by (rule floor_mono)
  with False have "\<lfloor>x\<rfloor> + 1 \<le> \<lfloor>y\<rfloor>" by simp
  moreover have "round_half_even x \<le> \<lfloor>x\<rfloor> + 1"
    using round_half_even_cases [of x] by auto
  moreover have "\<lfloor>y\<rfloor> \<le> round_half_even y"
    using round_half_even_cases [of y] by auto
  ultimately show ?thesis by linarith
qed

lemma round_half_even_between:
  assumes "of_int k - 1 / 2 < y" and "y < of_int k + 1 / 2"
  shows "round_half_even y = k"
proof (cases "y < of_int k")
  case True
  with assms have "of_int (k - 1) \<le> y" "y < of_int (k - 1) + 1" by simp_all
  then have f: "\<lfloor>y\<rfloor> = k - 1" by (simp add: floor_unique)
  with assms have "1 / 2 < y - of_int \<lfloor>y\<rfloor>" by simp
  from round_half_even_upper [OF this] f show ?thesis by simp
next
  case False
  with assms have "of_int k \<le> y" "y < of_int k + 1" by simp_all
  then have f: "\<lfloor>y\<rfloor> = k" by (simp add: floor_unique)
  with assms have "y - of_int \<lfloor>y\<rfloor> < 1 / 2" by simp
  from round_half_even_lower [OF this] f show ?thesis by simp
qed

lemma round4_idem: "round4 (round4 x) = round4 x"
  by (simp add: round4_def round_half_even_of_int)

lemma round4_mono: "x \<le> y \<Longrightarrow> round4 x \<le> round4 y"
proof -
  assume "x \<le> y"
  then have "x * 10000 \<le> y * 10000" by simp
  then have "round_half_even (x * 10000) \<le> round_half_even (y * 10000)"
    by (rule round_half_even_mono)
  then show ?thesis by (simp add: round4_def divide_right_mono)
qed

lemma round4_0: "round4 0 = 0"
  by (simp add: round4_def round_half_even_def)

lemma round4_1: "round4 1 = 1"
  using round_half_even_of_int [of 10000] by (simp add: round4_def)

lemma round4_nonneg: "0 \<le> x \<Longrightarrow> 0 \<le> round4 x"
  using round4_mono [of 0 x] by (simp add: round4_0)

lemma round4_between:
  assumes "(of_int k - 1 / 2) / 10000 < x" and "x < (of_int k + 1 / 2) / 10000"
  shows "round4 x = of_int k / 10000"
proof -
  from assms have "of_int k - 1 / 2 < x * 10000" "x * 10000 < of_int k + 1 / 2"
    by (simp_all add: field_simps)
  then have "round_half_even (x * 10000) = k" by (rule round_half_even_between)
  then show ?thesis by (simp add: round4_def)
qed

lemma sort_desc_sorted: "sorted (map (\<lambda>x. - f x) (sort_desc f xs))"
  by (simp add: sort_desc_def)

lemma sort_desc_stable: "filter (\<lambda>y. f y = v) (sort_desc f xs) = filter (\<lambda>y. f y = v) xs"
proof -
  have "filter (\<lambda>y. - f y = - v) (sort_key (\<lambda>x. - f x) xs) = filter (\<lambda>y. - f y = - v) xs"
    by (rule sort_key_stable)
  then show ?thesis by (simp add: sort_desc_def)
qed

lemma sort_desc_set: "set (sort_desc f xs) = set xs"
  by (simp add: sort_desc_def)

lemma sort_desc_length: "length (sort_desc f xs) = length xs"
  by (simp add: sort_desc_def)

lemma sort_desc_nth_mono:
  assumes "i \<le> j" and "j < length xs"
  shows "f (sort_desc f xs ! j) \<le> f (sort_desc f xs ! i)"
proof -
  let ?s = "sort_desc f xs"
  have "sorted (map (\<lambda>x. - f x) ?s)" by (rule sort_desc_sorted)
  moreover from assms have "j < length (map (\<lambda>x. - f x) ?s)" by (simp add: sort_desc_length)
  ultimately have "map (\<lambda>x. - f x) ?s ! i \<le> map (\<lambda>x. - f x) ?s ! j"
    using assms(1) by (simp only: sorted_nth_mono)
  with assms show ?thesis by (simp add: sort_desc_length)
qed

lemma sort_desc_id: "sorted (map (\<lambda>x. - f x) xs) \<Longrightarrow> sort_desc f xs = xs"
  unfolding sort_desc_def by (rule sort_key_id_if_sorted)

subsection \<open>The scores of the results\<close>

text \<open>
  Claim C9, amended. On an indexed engine \<open>search\<close> returns a prefix of the list
  \<open>ranked\<close>: one result for each entry of the merge, carrying the entry's document,
  the weighted sum of the entry's two scores rounded to four decimals, and each of the two
  scores rounded to four decimals. \<open>ranked\<close> is in descending order of the rounded
  weighted sum, and the results that have the same rounded weighted sum are in the order
  of their entries in the merge.
\<close>

theorem search_scores_rounded:
  assumes add: "add_documents e0 documents = (self, Inr ())"
    and emb: "vs_embedder (vector_store e0) = SimpleEmb s"
  shows "\<exists>merged ranked.
     search_merged self query top_k = (self, Inr merged) \<and>
     ranked = sort_desc relevance_score
                (map (\<lambda>(k, data). combine (semantic_weight self) (keyword_weight self) data) merged) \<and>
     search self query top_k = (self, Inr (py_slice_to ranked top_k)) \<and>
     (\<forall>r \<in> set ranked. \<exists>data \<in> snd ` set merged.
         document r = m_document data \<and>
         relevance_score r =
           round4 (semantic_weight self * m_semantic_score data +
                   keyword_weight self * m_keyword_score data) \<and>
         semantic_score r = round4 (m_semantic_score data) \<and>
         keyword_score r = round4 (m_keyword_score data)) \<and>
     (\<forall>i j. i \<le> j \<and> j < length ranked \<longrightarrow>
         relevance_score (ranked ! j) \<le> relevance_score (ranked ! i)) \<and>
     (\<forall>v. filter (\<lambda>r. relevance_score r = v) ranked =
          filter (\<lambda>r. relevance_score r = v)
            (map (\<lambda>(k, data). combine (semantic_weight self) (keyword_weight self) data) merged))"
proof -
  from add_documents_index [OF add]
  have sw: "semantic_weight self = semantic_weight e0"
    and kw: "keyword_weight self = keyword_weight e0" by simp_all
  from search_indexed [OF add emb, of query top_k]
  obtain merged where sm: "search_merged self query top_k = (self, Inr merged)"
    and se: "search self query top_k =
       (self, Inr (rank_merged (semantic_weight e0) (keyword_weight e0) merged top_k))"
    by (elim exE conjE)
  let ?c = "\<lambda>(k, data). combine (semantic_weight self) (keyword_weight self) data"
  let ?ranked = "sort_desc relevance_score (map ?c merged)"
  have res: "search self query top_k = (self, Inr (py_slice_to ?ranked top_k))"
    using se by (simp add: rank_merged_def sw kw)
  have fields: "\<exists>data \<in> snd ` set merged.
         document r = m_document data \<and>
         relevance_score r =
           round4 (semantic_weight self * m_semantic_score data +
                   keyword_weight self * m_keyword_score data) \<and>
         semantic_score r = round4 (m_semantic_score data) \<and>
         keyword_score r = round4 (m_keyword_score data)" if "r \<in> set ?ranked" for r
  proof -
    from that have "r \<in> set (map ?c merged)" by (simp only: sort_desc_set)
    then obtain k data where kd: "(k, data) \<in> set merged"
      and r: "r = combine (semantic_weight self) (keyword_weight self) data" by auto
    from kd have "data \<in> snd ` set merged" by force
    with r show ?thesis by (auto simp add: combine_def fused_def Let_def)
  qed
  have desc: "relevance_score (?ranked ! j) \<le> relevance_score (?ranked ! i)"
    if "i \<le> j" "j < length ?ranked" for i j
    using that by (simp only: sort_desc_nth_mono sort_desc_length)
  have stable: "filter (\<lambda>r. relevance_score r = v) ?ranked =
          filter (\<lambda>r. relevance_score r = v) (map ?c merged)" for v
    by (rule sort_desc_stable)
  from sm res fields desc stable show ?thesis by blast
qed

theorem search_scores_rounded_witness:
  "\<exists>results. snd (search (fst (create_rag_engine example_docs (7 / 10))) ''a b'' 5) = Inr results"
proof -
  let ?e = "fst (create_rag_engine example_docs (7 / 10))"
  have h: "add_documents (HybridSearchEngine_init (7 / 10)) example_docs = (?e, Inr ())"
    unfolding create_rag_engine_def by (rule example_add_documents)
  from search_scores_rounded [OF h init_unindexed(2), of "''a b''" 5]
  obtain ranked where "search ?e ''a b'' 5 = (?e, Inr (py_slice_to ranked 5))"
    by (elim exE conjE)
  then show ?thesis by simp
qed

end
